theory Spec2Isabelle
  imports Main "HOL-Library.Word"
begin

unbundle bit_operations_syntax

section \<open>Errors\<close>

text \<open>
  \<^verbatim>\<open>errors.ts\<close>: the error codes of \<^verbatim>\<open>KSUID_ERROR_CODES\<close>. A \<^verbatim>\<open>KSUIDError\<close> is
  identified by its code. The factory \<^verbatim>\<open>invalidBufferLength\<close> carries the code
  \<^verbatim>\<open>INVALID_BUFFER_SIZE\<close>, \<^verbatim>\<open>invalidStringLength\<close> carries \<^verbatim>\<open>INVALID_LENGTH\<close> and
  \<^verbatim>\<open>malformedData\<close> carries \<^verbatim>\<open>MALFORMED_DATA\<close>. \<^verbatim>\<open>RangeError\<close> is the error of the
  host's Buffer methods (\<^verbatim>\<open>ERR_OUT_OF_RANGE\<close>).
\<close>

datatype KSUIDErrorCode =
    INVALID_LENGTH
  | INVALID_CHARACTER
  | INVALID_BUFFER_SIZE
  | INVALID_TIMESTAMP
  | INVALID_INPUT
  | MALFORMED_DATA
  | CORRUPTION_DETECTED
  | SEQUENCE_EXHAUSTED
  | OPERATION_FAILED

datatype error = KSUIDError KSUIDErrorCode | RangeError

section \<open>Buffers\<close>

text \<open>
  A \<^verbatim>\<open>Buffer\<close> is a fixed-length sequence of unsigned bytes. The methods below are
  the ones of the host's Buffer class that the sources call, with their range checks.
\<close>

type_synonym buffer = "8 word list"

definition Buffer_alloc :: "nat \<Rightarrow> buffer" where
  "Buffer_alloc n = replicate n 0"

text \<open>\<^verbatim>\<open>buf.subarray(start, end)\<close>: both ends are clamped to the length.\<close>

definition subarray :: "buffer \<Rightarrow> nat \<Rightarrow> nat \<Rightarrow> buffer" where
  "subarray buf start end = take (end - start) (drop start buf)"

text \<open>\<^verbatim>\<open>buf[pos] = v\<close>: the value is stored modulo 256, a write past the end is ignored.\<close>

definition set_byte :: "buffer \<Rightarrow> nat \<Rightarrow> int \<Rightarrow> buffer" where
  "set_byte buf pos v = buf[pos := word_of_int v]"

text \<open>
  \<^verbatim>\<open>source.copy(target, targetStart)\<close>: copies as many bytes of the source as fit into
  the target from \<^verbatim>\<open>targetStart\<close> on; a negative \<^verbatim>\<open>targetStart\<close> is a \<^verbatim>\<open>RangeError\<close>.
\<close>

definition copy_into :: "buffer \<Rightarrow> buffer \<Rightarrow> nat \<Rightarrow> buffer" where
  "copy_into source target targetStart =
     take (length target)
       (take targetStart target @ source @ drop (targetStart + length source) target)"

definition Buffer_copy :: "buffer \<Rightarrow> buffer \<Rightarrow> int \<Rightarrow> error + buffer" where
  "Buffer_copy source target targetStart =
     (if targetStart < 0 then Inl RangeError
      else Inr (copy_into source target (nat targetStart)))"

text \<open>The unsigned big-endian value of a byte sequence, and the \<open>n\<close> low-order bytes of a value.\<close>

definition be_value :: "buffer \<Rightarrow> int" where
  "be_value bs = foldl (\<lambda>acc b. acc * 256 + uint b) 0 bs"

fun be_bytes :: "nat \<Rightarrow> int \<Rightarrow> buffer" where
  "be_bytes 0 v = []"
| "be_bytes (Suc n) v = be_bytes n (v div 256) @ [word_of_int v]"

definition readUInt32BE :: "buffer \<Rightarrow> nat \<Rightarrow> error + int" where
  "readUInt32BE buf offset =
     (if offset + 4 \<le> length buf then Inr (be_value (take 4 (drop offset buf)))
      else Inl RangeError)"

definition readBigUInt64BE :: "buffer \<Rightarrow> nat \<Rightarrow> error + int" where
  "readBigUInt64BE buf offset =
     (if offset + 8 \<le> length buf then Inr (be_value (take 8 (drop offset buf)))
      else Inl RangeError)"

definition writeUInt32BE :: "buffer \<Rightarrow> int \<Rightarrow> nat \<Rightarrow> error + buffer" where
  "writeUInt32BE buf v offset =
     (if v < 0 \<or> v > 0xffffffff \<or> length buf < offset + 4 then Inl RangeError
      else Inr (copy_into (be_bytes 4 v) buf offset))"

definition writeBigUInt64BE :: "buffer \<Rightarrow> int \<Rightarrow> nat \<Rightarrow> error + buffer" where
  "writeBigUInt64BE buf v offset =
     (if v < 0 \<or> v > 0xffffffffffffffff \<or> length buf < offset + 8 then Inl RangeError
      else Inr (copy_into (be_bytes 8 v) buf offset))"

text \<open>\<^verbatim>\<open>a.compare(b)\<close>: three-way unsigned lexicographic comparison.\<close>

fun Buffer_compare :: "buffer \<Rightarrow> buffer \<Rightarrow> int" where
  "Buffer_compare [] [] = 0"
| "Buffer_compare [] (y # ys) = -1"
| "Buffer_compare (x # xs) [] = 1"
| "Buffer_compare (x # xs) (y # ys) =
     (if x < y then -1 else if y < x then 1 else Buffer_compare xs ys)"

section \<open>Uint128\<close>

text \<open>
  \<^verbatim>\<open>uint128.ts\<close>: two \<^verbatim>\<open>bigint\<close> halves, each masked with \<^verbatim>\<open>U64_MAX\<close> by the
  constructor.
\<close>

definition U64_MAX :: int where
  "U64_MAX = 0xffffffffffffffff"

record Uint128 =
  low :: int
  high :: int

definition new_Uint128 :: "int \<Rightarrow> int \<Rightarrow> Uint128" where
  "new_Uint128 l h = \<lparr>low = l AND U64_MAX, high = h AND U64_MAX\<rparr>"

definition makeUint128 :: "int \<Rightarrow> int \<Rightarrow> Uint128" where
  "makeUint128 h l = new_Uint128 l h"

definition makeUint128FromPayload :: "buffer \<Rightarrow> error + Uint128" where
  "makeUint128FromPayload payload =
     (if length payload \<noteq> 16 then Inl (KSUIDError INVALID_BUFFER_SIZE)
      else case readBigUInt64BE payload 0 of
             Inl e \<Rightarrow> Inl e
           | Inr h \<Rightarrow>
               (case readBigUInt64BE payload 8 of
                  Inl e \<Rightarrow> Inl e
                | Inr l \<Rightarrow> Inr (new_Uint128 l h)))"

definition uint128Payload :: "buffer \<Rightarrow> error + Uint128" where
  "uint128Payload buf = makeUint128FromPayload (subarray buf 4 20)"

definition Uint128_zero :: Uint128 where
  "Uint128_zero = new_Uint128 0 0"

definition Uint128_one :: Uint128 where
  "Uint128_one = new_Uint128 1 0"

definition Uint128_max :: Uint128 where
  "Uint128_max = new_Uint128 U64_MAX U64_MAX"

definition Uint128_ksuid :: "Uint128 \<Rightarrow> int \<Rightarrow> error + buffer" where
  "Uint128_ksuid this timestamp =
     (case writeUInt32BE (Buffer_alloc 20) timestamp 0 of
        Inl e \<Rightarrow> Inl e
      | Inr out1 \<Rightarrow>
          (case writeBigUInt64BE out1 (high this) 4 of
             Inl e \<Rightarrow> Inl e
           | Inr out2 \<Rightarrow> writeBigUInt64BE out2 (low this) 12))"

definition Uint128_bytes :: "Uint128 \<Rightarrow> error + buffer" where
  "Uint128_bytes this =
     (case writeBigUInt64BE (Buffer_alloc 16) (high this) 0 of
        Inl e \<Rightarrow> Inl e
      | Inr out1 \<Rightarrow> writeBigUInt64BE out1 (low this) 8)"

definition Uint128_add :: "Uint128 \<Rightarrow> Uint128 \<Rightarrow> Uint128" where
  "Uint128_add this other =
     (let lowSum = low this + low other;
          carry = (if lowSum > U64_MAX then 1 else 0);
          newLow = lowSum AND U64_MAX;
          newHigh = (high this + high other + carry) AND U64_MAX
      in new_Uint128 newLow newHigh)"

definition Uint128_sub :: "Uint128 \<Rightarrow> Uint128 \<Rightarrow> Uint128" where
  "Uint128_sub this other =
     (let newLow0 = low this - low other;
          newLow = (if newLow0 < 0 then newLow0 + push_bit 64 1 else newLow0);
          borrow = (if newLow0 < 0 then 1 else 0);
          newHigh = (high this - high other - borrow) AND U64_MAX
      in new_Uint128 newLow newHigh)"

definition Uint128_incr :: "Uint128 \<Rightarrow> Uint128" where
  "Uint128_incr this =
     (let newLow = low this + 1;
          carry = (if newLow > U64_MAX then 1 else 0)
      in new_Uint128 (newLow AND U64_MAX) ((high this + carry) AND U64_MAX))"

definition Uint128_decr :: "Uint128 \<Rightarrow> Uint128" where
  "Uint128_decr this =
     (let newLow0 = low this - 1;
          newLow = (if newLow0 < 0 then newLow0 + push_bit 64 1 else newLow0);
          borrow = (if newLow0 < 0 then 1 else 0);
          newHigh = (high this - borrow) AND U64_MAX
      in new_Uint128 newLow newHigh)"

definition Uint128_compare :: "Uint128 \<Rightarrow> Uint128 \<Rightarrow> int" where
  "Uint128_compare this other =
     (if high this < high other then -1
      else if high this > high other then 1
      else if low this < low other then -1
      else if low this > low other then 1
      else 0)"

definition Uint128_equals :: "Uint128 \<Rightarrow> Uint128 \<Rightarrow> bool" where
  "Uint128_equals this other \<longleftrightarrow> low this = low other \<and> high this = high other"

definition Uint128_isZero :: "Uint128 \<Rightarrow> bool" where
  "Uint128_isZero this \<longleftrightarrow> low this = 0 \<and> high this = 0"

text \<open>
  The number a \<^verbatim>\<open>Uint128\<close> stands for, and the class invariant that the constructor
  establishes: both halves are 64-bit values.
\<close>

definition Uint128_value :: "Uint128 \<Rightarrow> int" where
  "Uint128_value x = high x * 2 ^ 64 + low x"

definition Uint128_inv :: "Uint128 \<Rightarrow> bool" where
  "Uint128_inv x \<longleftrightarrow> 0 \<le> low x \<and> low x \<le> U64_MAX \<and> 0 \<le> high x \<and> high x \<le> U64_MAX"

section \<open>Host numbers\<close>

text \<open>
  A \<^verbatim>\<open>number\<close> of the host is a double. The values that occur here are integers, so a
  number is modelled by the integer it holds; \<open>js_number\<close> rounds an integer to the
  nearest double (53 significant bits, ties to even), which is what a numeric literal,
  \<^verbatim>\<open>Number(bigint)\<close> and the result of an addition or subtraction go through.
  The operators \<^verbatim>\<open>&\<close> and \<^verbatim>\<open>|\<close> on numbers first convert both operands to signed
  32-bit integers (modulo \<open>2 ^ 32\<close>); on \<^verbatim>\<open>bigint\<close> they are exact.
\<close>

function bit_length :: "int \<Rightarrow> nat" where
  "bit_length n = (if n \<le> 0 then 0 else Suc (bit_length (n div 2)))"
  by pat_completeness auto
termination
  by (relation "measure nat") auto

declare bit_length.simps [simp del]

definition js_number :: "int \<Rightarrow> int" where
  "js_number n =
     (let m = \<bar>n\<bar>; k = bit_length m
      in if k \<le> 53 then n
         else let e = k - 53;
                  q = m div 2 ^ e;
                  r = m mod 2 ^ e;
                  half = 2 ^ (e - 1);
                  q' = (if r > half \<or> (r = half \<and> odd q) then q + 1 else q)
              in sgn n * (q' * 2 ^ e))"

definition js_bitand :: "int \<Rightarrow> int \<Rightarrow> int" where
  "js_bitand a b = sint ((word_of_int a :: 32 word) AND word_of_int b)"

definition js_bitor :: "int \<Rightarrow> int \<Rightarrow> int" where
  "js_bitor a b = sint ((word_of_int a :: 32 word) OR word_of_int b)"

definition js_bitnot :: "int \<Rightarrow> int" where
  "js_bitnot a = sint (NOT (word_of_int a :: 32 word))"

definition js_shiftl :: "int \<Rightarrow> nat \<Rightarrow> int" where
  "js_shiftl a n = sint (push_bit (n mod 32) (word_of_int a :: 32 word))"

text \<open>\<^verbatim>\<open>buf.subarray(start)\<close>: a negative start counts from the end.\<close>

definition subarray_from :: "buffer \<Rightarrow> int \<Rightarrow> buffer" where
  "subarray_from buf start =
     (if start < 0 then drop (nat (int (length buf) + start)) buf else drop (nat start) buf)"

section \<open>Base62\<close>

definition BASE62_ALPHABET :: string where
  "BASE62_ALPHABET = ''0123456789ABCDEFGHIJKLMNOPQRSTUVWXYZabcdefghijklmnopqrstuvwxyz''"

definition BASE :: int where
  "BASE = 62"

definition KSUID_BYTE_LENGTH :: nat where
  "KSUID_BYTE_LENGTH = 20"

definition ENCODED_STRING_LENGTH :: nat where
  "ENCODED_STRING_LENGTH = 27"

definition padStart :: "string \<Rightarrow> nat \<Rightarrow> char \<Rightarrow> string" where
  "padStart s n c = replicate (n - length s) c @ s"

function Base62_encode_loop :: "int \<Rightarrow> string \<Rightarrow> string" where
  "Base62_encode_loop num encoded =
     (if num > 0
      then Base62_encode_loop (num div BASE) (BASE62_ALPHABET ! nat (num mod BASE) # encoded)
      else encoded)"
  by pat_completeness auto
termination
  by (relation "measure (\<lambda>(num, encoded). nat num)") (auto simp: BASE_def)

declare Base62_encode_loop.simps [simp del]

definition Base62_encode :: "buffer \<Rightarrow> error + string" where
  "Base62_encode buf =
     (if length buf \<noteq> KSUID_BYTE_LENGTH then Inl (KSUIDError INVALID_BUFFER_SIZE)
      else let num = be_value buf
           in if num = 0 then Inr (replicate ENCODED_STRING_LENGTH (CHR ''0''))
              else Inr (padStart (Base62_encode_loop num []) ENCODED_STRING_LENGTH (CHR ''0'')))"

section \<open>KSUID\<close>

text \<open>
  \<^verbatim>\<open>ksuid.ts\<close>: an identifier wraps a buffer; the constructor rejects every length
  other than 20.
\<close>

definition TIMESTAMP_LENGTH :: nat where
  "TIMESTAMP_LENGTH = 4"

definition PAYLOAD_LENGTH :: nat where
  "PAYLOAD_LENGTH = 16"

definition KSUID_LENGTH :: nat where
  "KSUID_LENGTH = TIMESTAMP_LENGTH + PAYLOAD_LENGTH"

datatype KSUID = KSUID (toBuffer: buffer)

definition new_KSUID :: "buffer \<Rightarrow> error + KSUID" where
  "new_KSUID buf =
     (if length buf \<noteq> KSUID_LENGTH then Inl (KSUIDError INVALID_BUFFER_SIZE)
      else Inr (KSUID buf))"

definition KSUID_fromBytes :: "buffer \<Rightarrow> error + KSUID" where
  "KSUID_fromBytes buf =
     (if length buf \<noteq> KSUID_LENGTH then Inl (KSUIDError INVALID_BUFFER_SIZE)
      else new_KSUID buf)"

definition KSUID_fromParts :: "int \<Rightarrow> buffer \<Rightarrow> error + KSUID" where
  "KSUID_fromParts ts payload =
     (if ts < 0 \<or> ts > 0xffffffff then Inl (KSUIDError INVALID_TIMESTAMP)
      else if length payload \<noteq> PAYLOAD_LENGTH then Inl (KSUIDError INVALID_BUFFER_SIZE)
      else case writeUInt32BE (Buffer_alloc KSUID_LENGTH) ts 0 of
             Inl e \<Rightarrow> Inl e
           | Inr buf1 \<Rightarrow>
               (case Buffer_copy payload buf1 (int TIMESTAMP_LENGTH) of
                  Inl e \<Rightarrow> Inl e
                | Inr buf2 \<Rightarrow> new_KSUID buf2))"

definition KSUID_nil :: KSUID where
  "KSUID_nil = KSUID (Buffer_alloc KSUID_LENGTH)"

definition KSUID_timestamp :: "KSUID \<Rightarrow> error + int" where
  "KSUID_timestamp this = readUInt32BE (toBuffer this) 0"

definition KSUID_payload :: "KSUID \<Rightarrow> buffer" where
  "KSUID_payload this = subarray_from (toBuffer this) (int TIMESTAMP_LENGTH)"

definition KSUID_toString :: "KSUID \<Rightarrow> error + string" where
  "KSUID_toString this = Base62_encode (toBuffer this)"

definition KSUID_compare :: "KSUID \<Rightarrow> KSUID \<Rightarrow> int" where
  "KSUID_compare this other = Buffer_compare (toBuffer this) (toBuffer other)"

section \<open>Sorting\<close>

text \<open>
  \<^verbatim>\<open>sort.ts\<close>. \<open>isSorted_loop\<close> is the loop of \<^verbatim>\<open>isSorted\<close> over the elements after the
  first, with \<^verbatim>\<open>min\<close> as its first argument. \<open>quickSort\<close> works on the contents of the
  array and returns the contents after its swaps; \<^verbatim>\<open>sort\<close> calls it with the first and
  the last index of the array.
\<close>

fun isSorted_loop :: "KSUID \<Rightarrow> KSUID list \<Rightarrow> bool" where
  "isSorted_loop m [] = True"
| "isSorted_loop m (current # rest) =
     (if KSUID_compare m current > 0 then False else isSorted_loop current rest)"

definition isSorted :: "KSUID list \<Rightarrow> bool" where
  "isSorted ids = (case ids of [] \<Rightarrow> True | first # rest \<Rightarrow> isSorted_loop first rest)"

definition swap :: "'a list \<Rightarrow> nat \<Rightarrow> nat \<Rightarrow> 'a list" where
  "swap a i j = (a[i := a ! j])[j := a ! i]"

function partition_loop ::
  "KSUID list \<Rightarrow> KSUID \<Rightarrow> int \<Rightarrow> int \<Rightarrow> int \<Rightarrow> KSUID list \<times> int" where
  "partition_loop a pivot i j hi =
     (if j < hi
      then if KSUID_compare (a ! nat j) pivot < 0
           then partition_loop (swap a (nat (i + 1)) (nat j)) pivot (i + 1) (j + 1) hi
           else partition_loop a pivot i (j + 1) hi
      else (a, i))"
  by pat_completeness auto
termination
  by (relation "measure (\<lambda>(a, pivot, i, j, hi). nat (hi - j))") auto

declare partition_loop.simps [simp del]

definition quickSort_partition :: "KSUID list \<Rightarrow> int \<Rightarrow> int \<Rightarrow> KSUID list \<times> int" where
  "quickSort_partition a lo hi =
     (let pivot = a ! nat hi;
          (a1, i0) = partition_loop a pivot (lo - 1) lo hi;
          i = i0 + 1
      in if KSUID_compare (a1 ! nat hi) (a1 ! nat i) < 0
         then (swap a1 (nat i) (nat hi), i)
         else (a1, i))"

lemma partition_loop_bounds:
  "partition_loop a pivot i j hi = (a', i') \<Longrightarrow> i \<le> i' \<and> i' - i \<le> max 0 (hi - j)"
proof (induction a pivot i j hi arbitrary: a' i' rule: partition_loop.induct)
  case (1 a pivot i j hi)
  show ?case
  proof (cases "j < hi")
    case False
    with "1.prems" show ?thesis by (simp add: partition_loop.simps [of a pivot i j hi])
  next
    case True
    show ?thesis
    proof (cases "KSUID_compare (a ! nat j) pivot < 0")
      case lt: True
      with True "1.prems"
      have "partition_loop (swap a (nat (i + 1)) (nat j)) pivot (i + 1) (j + 1) hi = (a', i')"
        by (simp add: partition_loop.simps [of a pivot i j hi])
      from "1.IH"(1) [OF True lt this] True show ?thesis by simp
    next
      case ge: False
      with True "1.prems" have "partition_loop a pivot i (j + 1) hi = (a', i')"
        by (simp add: partition_loop.simps [of a pivot i j hi])
      from "1.IH"(2) [OF True ge this] True show ?thesis by simp
    qed
  qed
qed

lemma quickSort_partition_bounds:
  assumes "(a', i) = quickSort_partition a lo hi" and "lo < hi"
  shows "lo \<le> i \<and> i \<le> hi"
proof -
  obtain a1 i0 where p: "partition_loop a (a ! nat hi) (lo - 1) lo hi = (a1, i0)"
    by (cases "partition_loop a (a ! nat hi) (lo - 1) lo hi")
  from assms(1) p have "i = i0 + 1"
    by (auto simp: quickSort_partition_def Let_def split: if_splits)
  with partition_loop_bounds [OF p] assms(2) show ?thesis by simp
qed

function quickSort :: "KSUID list \<Rightarrow> int \<Rightarrow> int \<Rightarrow> KSUID list" where
  "quickSort a lo hi =
     (if lo < hi
      then case quickSort_partition a lo hi of
             (a1, i) \<Rightarrow> quickSort (quickSort a1 lo (i - 1)) (i + 1) hi
      else a)"
  by pat_completeness auto
termination
  by (relation "measure (\<lambda>(a, lo, hi). nat (hi - lo))")
    (auto dest!: quickSort_partition_bounds)

declare quickSort.simps [simp del]

definition sort_ids :: "KSUID list \<Rightarrow> KSUID list" where
  "sort_ids ids = (if length ids \<le> 1 then ids else quickSort ids 0 (int (length ids) - 1))"

section \<open>Arrays of identifiers\<close>

text \<open>
  The arrays of identifiers live in a store: \<^verbatim>\<open>sort\<close> and \<^verbatim>\<open>push\<close> change an array in
  place, and whoever holds a reference to it sees the change. A reference is an index
  into \<open>arrays\<close>; \<open>next_ref\<close> is the first reference not yet handed out.
\<close>

record heap =
  arrays :: "nat \<Rightarrow> KSUID list"
  next_ref :: nat

definition new_array :: "heap \<Rightarrow> nat \<times> heap" where
  "new_array h =
     (next_ref h, h\<lparr>arrays := (arrays h)(next_ref h := []), next_ref := Suc (next_ref h)\<rparr>)"

definition array_push :: "heap \<Rightarrow> nat \<Rightarrow> KSUID \<Rightarrow> heap" where
  "array_push h r x = h\<lparr>arrays := (arrays h)(r := arrays h r @ [x])\<rparr>"

definition sort_array :: "heap \<Rightarrow> nat \<Rightarrow> heap" where
  "sort_array h r = h\<lparr>arrays := (arrays h)(r := sort_ids (arrays h r))\<rparr>"

section \<open>CompressedSet: the encoder\<close>

definition RAW_KSUID :: int where
  "RAW_KSUID = 0"

definition TIME_DELTA :: int where
  "TIME_DELTA = js_shiftl 1 6"

definition PAYLOAD_DELTA :: int where
  "PAYLOAD_DELTA = js_shiftl 1 7"

definition PAYLOAD_RANGE :: int where
  "PAYLOAD_RANGE = js_bitor (js_shiftl 1 6) (js_shiftl 1 7)"

definition varintLength64BigInt :: "int \<Rightarrow> nat" where
  "varintLength64BigInt v =
     (if v AND 0xffffffffffffff00 = 0 then 1
      else if v AND 0xffffffffffff0000 = 0 then 2
      else if v AND 0xffffffffff000000 = 0 then 3
      else if v AND 0xffffffff00000000 = 0 then 4
      else if v AND 0xffffff0000000000 = 0 then 5
      else if v AND 0xffff000000000000 = 0 then 6
      else if v AND 0xff00000000000000 = 0 then 7
      else 8)"

definition varintLength128 :: "Uint128 \<Rightarrow> nat" where
  "varintLength128 v =
     (if high v \<noteq> 0 then 8 + varintLength64BigInt (high v)
      else varintLength64BigInt (low v))"

text \<open>
  \<^verbatim>\<open>varintLength64\<close> and \<^verbatim>\<open>varintLength32\<close> take a number: their masks are numeric
  literals and their \<^verbatim>\<open>&\<close> is the 32-bit one.
\<close>

definition varintLength64 :: "int \<Rightarrow> nat" where
  "varintLength64 v =
     (if js_bitand v (js_number 0xffffffffffffff00) = 0 then 1
      else if js_bitand v (js_number 0xffffffffffff0000) = 0 then 2
      else if js_bitand v (js_number 0xffffffffff000000) = 0 then 3
      else if js_bitand v (js_number 0xffffffff00000000) = 0 then 4
      else if js_bitand v (js_number 0xffffff0000000000) = 0 then 5
      else if js_bitand v (js_number 0xffff000000000000) = 0 then 6
      else if js_bitand v (js_number 0xff00000000000000) = 0 then 7
      else 8)"

definition varintLength32 :: "int \<Rightarrow> nat" where
  "varintLength32 v =
     (if js_bitand v (js_number 0xffffff00) = 0 then 1
      else if js_bitand v (js_number 0xffff0000) = 0 then 2
      else if js_bitand v (js_number 0xff000000) = 0 then 3
      else 4)"

definition appendVarint128 :: "buffer \<Rightarrow> nat \<Rightarrow> Uint128 \<Rightarrow> nat \<Rightarrow> error + buffer" where
  "appendVarint128 buf offset v len =
     (case Uint128_bytes v of
        Inl e \<Rightarrow> Inl e
      | Inr bytes \<Rightarrow> Buffer_copy (subarray_from bytes (16 - int len)) buf (int offset))"

definition appendVarint64 :: "buffer \<Rightarrow> nat \<Rightarrow> int \<Rightarrow> nat \<Rightarrow> error + buffer" where
  "appendVarint64 buf offset v len =
     (case writeBigUInt64BE (Buffer_alloc 8) v 0 of
        Inl e \<Rightarrow> Inl e
      | Inr temp \<Rightarrow> Buffer_copy (subarray_from temp (8 - int len)) buf (int offset))"

definition appendVarint32 :: "buffer \<Rightarrow> nat \<Rightarrow> int \<Rightarrow> nat \<Rightarrow> error + buffer" where
  "appendVarint32 buf offset v len =
     (case writeUInt32BE (Buffer_alloc 4) v 0 of
        Inl e \<Rightarrow> Inl e
      | Inr temp \<Rightarrow> Buffer_copy (subarray_from temp (4 - int len)) buf (int offset))"

text \<open>
  \<^verbatim>\<open>rangeLength\<close>: the loop over \<^verbatim>\<open>ids\<close> with its locals \<^verbatim>\<open>lastKSUID\<close>,
  \<^verbatim>\<open>currentValue\<close>, \<^verbatim>\<open>length\<close> and \<^verbatim>\<open>count\<close>; the result is \<open>(length, count)\<close>.
\<close>

fun rangeLength_loop ::
  "KSUID list \<Rightarrow> int \<Rightarrow> KSUID \<Rightarrow> Uint128 \<Rightarrow> nat \<Rightarrow> nat \<Rightarrow> error + (nat \<times> nat)" where
  "rangeLength_loop [] ts lastKSUID currentValue len count = Inr (len, count)"
| "rangeLength_loop (ident # rest) ts lastKSUID currentValue len count =
     (case KSUID_toString ident of
        Inl e \<Rightarrow> Inl e
      | Inr s1 \<Rightarrow>
     (case KSUID_toString lastKSUID of
        Inl e \<Rightarrow> Inl e
      | Inr s2 \<Rightarrow>
     if s1 = s2 then rangeLength_loop rest ts lastKSUID currentValue len (count + 1)
     else
     (case KSUID_timestamp ident of
        Inl e \<Rightarrow> Inl e
      | Inr t \<Rightarrow>
     if t \<noteq> ts then Inr (len, count)
     else
     (case uint128Payload (toBuffer ident) of
        Inl e \<Rightarrow> Inl e
      | Inr v \<Rightarrow>
     let expectedNext = Uint128_add currentValue Uint128_one
     in if \<not> Uint128_equals v expectedNext then Inr (len, count)
        else rangeLength_loop rest ts ident v (len + 1) (count + 1)))))"

definition rangeLength ::
  "KSUID list \<Rightarrow> int \<Rightarrow> KSUID \<Rightarrow> Uint128 \<Rightarrow> error + (nat \<times> nat)" where
  "rangeLength ids ts lastKSUID lastValue = rangeLength_loop ids ts lastKSUID lastValue 0 0"

text \<open>
  The locals of \<^verbatim>\<open>appendCompressed\<close> that its main loop changes. One turn of the loop
  either leaves it (\<^verbatim>\<open>break\<close>) or goes on, after adding \<open>count\<close> to the index.
\<close>

record enc =
  enc_buffer :: buffer
  enc_pos :: nat
  enc_timestamp :: int
  enc_lastValue :: Uint128

datatype turn = Break enc | Continue nat enc

text \<open>Lines 138-142 and 175-179: a payload delta record.\<close>

definition emit_payload_delta :: "enc \<Rightarrow> Uint128 \<Rightarrow> error + enc" where
  "emit_payload_delta s delta =
     (let deltaLength = varintLength128 delta;
          buf1 = set_byte (enc_buffer s) (enc_pos s) (js_bitor PAYLOAD_DELTA (int deltaLength))
      in case appendVarint128 buf1 (enc_pos s + 1) delta deltaLength of
           Inl e \<Rightarrow> Inl e
         | Inr buf2 \<Rightarrow> Inr (s\<lparr>enc_buffer := buf2, enc_pos := enc_pos s + 1 + deltaLength\<rparr>))"

text \<open>Lines 117-182: the branches of one turn, for the identifier at index \<open>i\<close>.\<close>

definition encode_branches ::
  "KSUID list \<Rightarrow> nat \<Rightarrow> enc \<Rightarrow> KSUID \<Rightarrow> int \<Rightarrow> Uint128 \<Rightarrow> error + turn" where
  "encode_branches uniqueIds i s ident t v =
     (if t \<noteq> enc_timestamp s then
        (let delta = t - enc_timestamp s;
             deltaLength = varintLength32 delta;
             buf1 = set_byte (enc_buffer s) (enc_pos s) (js_bitor TIME_DELTA (int deltaLength))
         in case appendVarint32 buf1 (enc_pos s + 1) delta deltaLength of
              Inl e \<Rightarrow> Inl e
            | Inr buf2 \<Rightarrow>
                (case Buffer_copy (KSUID_payload ident) buf2 (int (enc_pos s + 1 + deltaLength)) of
                   Inl e \<Rightarrow> Inl e
                 | Inr buf3 \<Rightarrow>
                     Inr (Continue 0
                       (s\<lparr>enc_buffer := buf3, enc_pos := enc_pos s + 1 + deltaLength + 16,
                          enc_timestamp := t\<rparr>))))
      else
        (let delta = Uint128_sub v (enc_lastValue s)
         in if \<not> Uint128_equals delta Uint128_one then
              (case emit_payload_delta s delta of
                 Inl e \<Rightarrow> Inl e
               | Inr s1 \<Rightarrow> Inr (Continue 0 s1))
            else
              (case rangeLength (drop (i + 1) uniqueIds) (enc_timestamp s) ident v of
                 Inl e \<Rightarrow> Inl e
               | Inr (len, count) \<Rightarrow>
                   if len > 0 then
                     (let rangeSize = int len + 1;
                          rangeSizeLength = varintLength64 rangeSize;
                          buf1 = set_byte (enc_buffer s) (enc_pos s)
                                   (js_bitor PAYLOAD_RANGE (int rangeSizeLength))
                      in case appendVarint64 buf1 (enc_pos s + 1) rangeSize rangeSizeLength of
                           Inl e \<Rightarrow> Inl e
                         | Inr buf2 \<Rightarrow>
                             (let s1 = s\<lparr>enc_buffer := buf2,
                                         enc_pos := enc_pos s + 1 + rangeSizeLength\<rparr>;
                                  i1 = i + count
                              in if i1 < length uniqueIds then
                                   (case uint128Payload (toBuffer (uniqueIds ! i1)) of
                                      Inl e \<Rightarrow> Inl e
                                    | Inr newValue \<Rightarrow>
                                        Inr (Continue count (s1\<lparr>enc_lastValue := newValue\<rparr>)))
                                 else Inr (Break s1)))
                   else
                     (case emit_payload_delta s delta of
                        Inl e \<Rightarrow> Inl e
                      | Inr s1 \<Rightarrow> Inr (Continue 0 s1)))))"

text \<open>
  Lines 112-185: one turn of the loop. After the branches, unless the loop was left,
  line 185 assigns \<^verbatim>\<open>lastValue = v\<close>, where \<^verbatim>\<open>v\<close> is the constant bound at line 115.
\<close>

definition encode_turn :: "KSUID list \<Rightarrow> nat \<Rightarrow> enc \<Rightarrow> error + turn" where
  "encode_turn uniqueIds i s =
     (let ident = uniqueIds ! i
      in case KSUID_timestamp ident of
           Inl e \<Rightarrow> Inl e
         | Inr t \<Rightarrow>
             (case uint128Payload (toBuffer ident) of
                Inl e \<Rightarrow> Inl e
              | Inr v \<Rightarrow>
                  (case encode_branches uniqueIds i s ident t v of
                     Inl e \<Rightarrow> Inl e
                   | Inr (Break s1) \<Rightarrow> Inr (Break s1)
                   | Inr (Continue count s1) \<Rightarrow>
                       Inr (Continue count (s1\<lparr>enc_lastValue := v\<rparr>)))))"

function encode_loop :: "KSUID list \<Rightarrow> nat \<Rightarrow> enc \<Rightarrow> error + enc" where
  "encode_loop uniqueIds i s =
     (if i < length uniqueIds
      then case encode_turn uniqueIds i s of
             Inl e \<Rightarrow> Inl e
           | Inr (Break s1) \<Rightarrow> Inr s1
           | Inr (Continue count s1) \<Rightarrow> encode_loop uniqueIds (i + count + 1) s1
      else Inr s)"
  by pat_completeness auto
termination
  by (relation "measure (\<lambda>(uniqueIds, i, s). length uniqueIds - i)") auto

declare encode_loop.simps [simp del]

text \<open>Lines 99-188: the encoding of the sorted, duplicate-free, non-empty array.\<close>

definition encode_sorted :: "buffer \<Rightarrow> KSUID list \<Rightarrow> error + buffer" where
  "encode_sorted buf uniqueIds =
     (let buf1 = set_byte buf 0 RAW_KSUID;
          firstBuffer = toBuffer (uniqueIds ! 0)
      in case Buffer_copy firstBuffer buf1 1 of
           Inl e \<Rightarrow> Inl e
         | Inr buf2 \<Rightarrow>
             (case KSUID_timestamp (uniqueIds ! 0) of
                Inl e \<Rightarrow> Inl e
              | Inr ts \<Rightarrow>
                  (case uint128Payload (toBuffer (uniqueIds ! 0)) of
                     Inl e \<Rightarrow> Inl e
                   | Inr lastValue \<Rightarrow>
                       (case encode_loop uniqueIds 1
                               \<lparr>enc_buffer = buf2, enc_pos = 1 + 20, enc_timestamp = ts,
                                enc_lastValue = lastValue\<rparr> of
                          Inl e \<Rightarrow> Inl e
                        | Inr s \<Rightarrow> Inr (subarray (enc_buffer s) 0 (enc_pos s))))))"

text \<open>
  Lines 83-89: the loop that fills \<^verbatim>\<open>uniqueIds\<close>, with the set \<^verbatim>\<open>seen\<close>. It returns
  the store and the error, if one was thrown.
\<close>

fun unique_loop :: "KSUID list \<Rightarrow> string set \<Rightarrow> nat \<Rightarrow> heap \<Rightarrow> heap \<times> error option" where
  "unique_loop [] seen uniqueIds h = (h, None)"
| "unique_loop (ident # rest) seen uniqueIds h =
     (case KSUID_toString ident of
        Inl e \<Rightarrow> (h, Some e)
      | Inr key \<Rightarrow>
          if key \<in> seen then unique_loop rest seen uniqueIds h
          else unique_loop rest (insert key seen) uniqueIds (array_push h uniqueIds ident))"

text \<open>
  \<^verbatim>\<open>appendCompressed(buffer, ids)\<close>, where \<open>ids\<close> is the reference of the array. The
  result is the store after the call and the returned buffer or the error thrown.
\<close>

definition appendCompressed :: "heap \<Rightarrow> buffer \<Rightarrow> nat \<Rightarrow> heap \<times> (error + buffer)" where
  "appendCompressed h buf ids =
     (if length (arrays h ids) = 0 then (h, Inr (subarray buf 0 0))
      else case new_array h of
        (uniqueIds, h1) \<Rightarrow>
          (case unique_loop (arrays h1 ids) {} uniqueIds h1 of
             (h2, Some e) \<Rightarrow> (h2, Inl e)
           | (h2, None) \<Rightarrow>
               (let h3 = (if \<not> isSorted (arrays h2 uniqueIds) then sort_array h2 uniqueIds
                          else h2)
                in if length (arrays h3 uniqueIds) = 0 then (h3, Inr (subarray buf 0 0))
                   else (h3, encode_sorted buf (arrays h3 uniqueIds)))))"

text \<open>
  \<^verbatim>\<open>CompressedSet.compress(...ids)\<close>; a \<^verbatim>\<open>CompressedSet\<close> is its \<^verbatim>\<open>content\<close>.
\<close>

definition CompressedSet_compress :: "heap \<Rightarrow> nat \<Rightarrow> heap \<times> (error + buffer)" where
  "CompressedSet_compress h ids =
     (let capacity = max 100 (1 + 20 + length (arrays h ids) div 5);
          buf = Buffer_alloc (capacity * 10)
      in appendCompressed h buf ids)"

section \<open>The turns of the encoder's loop\<close>

text \<open>
  The turns that \<open>encode_loop\<close> takes: the index and the locals at the start of each
  turn, in order. The recursion is the one of \<open>encode_loop\<close>.
\<close>

function encode_visits :: "KSUID list \<Rightarrow> nat \<Rightarrow> enc \<Rightarrow> (nat \<times> enc) list" where
  "encode_visits uniqueIds i s =
     (if i < length uniqueIds
      then (i, s) #
           (case encode_turn uniqueIds i s of
              Inl e \<Rightarrow> []
            | Inr (Break s1) \<Rightarrow> []
            | Inr (Continue count s1) \<Rightarrow> encode_visits uniqueIds (i + count + 1) s1)
      else [])"
  by pat_completeness auto
termination
  by (relation "measure (\<lambda>(uniqueIds, i, s). length uniqueIds - i)") auto

declare encode_visits.simps [simp del]



section \<open>CompressedSetIter: the decoder\<close>

record CompressedSetIter =
  ksuid :: KSUID
  content :: buffer
  offset :: nat
  seqlength :: int
  timestamp :: int
  lastValue :: Uint128

definition new_CompressedSetIter :: "buffer \<Rightarrow> CompressedSetIter" where
  "new_CompressedSetIter c =
     \<lparr>ksuid = KSUID_nil, content = c, offset = 0, seqlength = 0, timestamp = 0,
      lastValue = Uint128_zero\<rparr>"

definition readVarint32 :: "buffer \<Rightarrow> error + int" where
  "readVarint32 buf =
     (case Buffer_copy buf (Buffer_alloc 4) (4 - int (length buf)) of
        Inl e \<Rightarrow> Inl e
      | Inr temp \<Rightarrow> readUInt32BE temp 0)"

definition readVarint64 :: "buffer \<Rightarrow> error + int" where
  "readVarint64 buf =
     (case Buffer_copy buf (Buffer_alloc 8) (8 - int (length buf)) of
        Inl e \<Rightarrow> Inl e
      | Inr temp \<Rightarrow>
          (case readBigUInt64BE temp 0 of
             Inl e \<Rightarrow> Inl e
           | Inr n \<Rightarrow> Inr (js_number n)))"

definition readVarint128 :: "buffer \<Rightarrow> error + Uint128" where
  "readVarint128 buf =
     (case Buffer_copy buf (Buffer_alloc 16) (16 - int (length buf)) of
        Inl e \<Rightarrow> Inl e
      | Inr temp \<Rightarrow> makeUint128FromPayload temp)"

text \<open>Lines 323-330: the next identifier of a range that is being played back.\<close>

definition next_in_range :: "CompressedSetIter \<Rightarrow> error + (bool \<times> CompressedSetIter)" where
  "next_in_range this =
     (let v = Uint128_incr (lastValue this)
      in case Uint128_ksuid v (timestamp this) of
           Inl e \<Rightarrow> Inl e
         | Inr b \<Rightarrow>
             (case KSUID_fromBytes b of
                Inl e \<Rightarrow> Inl e
              | Inr k \<Rightarrow>
                  Inr (True, this\<lparr>ksuid := k, seqlength := js_number (seqlength this - 1),
                                  lastValue := v\<rparr>)))"

text \<open>The four cases of the \<^verbatim>\<open>switch\<close>; \<open>this\<close> has its offset already past the tag byte.\<close>

definition next_raw :: "CompressedSetIter \<Rightarrow> error + (bool \<times> CompressedSetIter)" where
  "next_raw this =
     (let ksuidBuffer = subarray (content this) (offset this) (offset this + 20)
      in case KSUID_fromBytes ksuidBuffer of
           Inl e \<Rightarrow> Inl e
         | Inr k \<Rightarrow>
             (case KSUID_timestamp k of
                Inl e \<Rightarrow> Inl e
              | Inr t \<Rightarrow>
                  (case uint128Payload (toBuffer k) of
                     Inl e \<Rightarrow> Inl e
                   | Inr v \<Rightarrow>
                       Inr (True, this\<lparr>ksuid := k, offset := offset this + 20, timestamp := t,
                                       lastValue := v\<rparr>))))"

definition next_time_delta ::
  "CompressedSetIter \<Rightarrow> nat \<Rightarrow> error + (bool \<times> CompressedSetIter)" where
  "next_time_delta this cnt =
     (let deltaBuffer = subarray (content this) (offset this) (offset this + cnt)
      in case readVarint32 deltaBuffer of
           Inl e \<Rightarrow> Inl e
         | Inr delta \<Rightarrow>
             (let offset1 = offset this + cnt;
                  timestamp1 = js_number (timestamp this + delta);
                  payloadBuffer = subarray (content this) offset1 (offset1 + 16);
                  offset2 = offset1 + 16
              in case writeUInt32BE (Buffer_alloc 20) timestamp1 0 of
                   Inl e \<Rightarrow> Inl e
                 | Inr buf1 \<Rightarrow>
                     (case Buffer_copy payloadBuffer buf1 4 of
                        Inl e \<Rightarrow> Inl e
                      | Inr ksuidBuffer \<Rightarrow>
                          (case KSUID_fromBytes ksuidBuffer of
                             Inl e \<Rightarrow> Inl e
                           | Inr k \<Rightarrow>
                               (case uint128Payload (toBuffer k) of
                                  Inl e \<Rightarrow> Inl e
                                | Inr v \<Rightarrow>
                                    Inr (True, this\<lparr>ksuid := k, offset := offset2,
                                                    timestamp := timestamp1,
                                                    lastValue := v\<rparr>))))))"

definition next_payload_delta ::
  "CompressedSetIter \<Rightarrow> nat \<Rightarrow> error + (bool \<times> CompressedSetIter)" where
  "next_payload_delta this cnt =
     (let deltaBuffer = subarray (content this) (offset this) (offset this + cnt)
      in case readVarint128 deltaBuffer of
           Inl e \<Rightarrow> Inl e
         | Inr delta \<Rightarrow>
             (let v = Uint128_add (lastValue this) delta
              in case Uint128_ksuid v (timestamp this) of
                   Inl e \<Rightarrow> Inl e
                 | Inr b \<Rightarrow>
                     (case KSUID_fromBytes b of
                        Inl e \<Rightarrow> Inl e
                      | Inr k \<Rightarrow>
                          Inr (True, this\<lparr>ksuid := k, offset := offset this + cnt,
                                          lastValue := v\<rparr>))))"

definition next_payload_range ::
  "CompressedSetIter \<Rightarrow> nat \<Rightarrow> error + (bool \<times> CompressedSetIter)" where
  "next_payload_range this cnt =
     (let lengthBuffer = subarray (content this) (offset this) (offset this + cnt)
      in case readVarint64 lengthBuffer of
           Inl e \<Rightarrow> Inl e
         | Inr rangeLen \<Rightarrow>
             (let v = Uint128_incr (lastValue this)
              in case Uint128_ksuid v (timestamp this) of
                   Inl e \<Rightarrow> Inl e
                 | Inr b \<Rightarrow>
                     (case KSUID_fromBytes b of
                        Inl e \<Rightarrow> Inl e
                      | Inr k \<Rightarrow>
                          Inr (True, this\<lparr>ksuid := k, offset := offset this + cnt,
                                          seqlength := js_number (rangeLen - 1),
                                          lastValue := v\<rparr>))))"

text \<open>
  \<^verbatim>\<open>next()\<close>: the result is the error thrown, or the returned boolean with the iterator
  after the call.
\<close>

definition CompressedSetIter_next ::
  "CompressedSetIter \<Rightarrow> error + (bool \<times> CompressedSetIter)" where
  "CompressedSetIter_next this =
     (if seqlength this > 0 then next_in_range this
      else if offset this \<ge> length (content this) then Inr (False, this)
      else
        (let b = uint (content this ! offset this);
             this1 = this\<lparr>offset := offset this + 1\<rparr>;
             mask = js_bitor (js_bitor (js_bitor RAW_KSUID TIME_DELTA) PAYLOAD_DELTA)
                      PAYLOAD_RANGE;
             tag = js_bitand b mask;
             cnt = nat (js_bitand b (js_bitnot mask))
         in if tag = RAW_KSUID then next_raw this1
            else if tag = TIME_DELTA then next_time_delta this1 cnt
            else if tag = PAYLOAD_DELTA then next_payload_delta this1 cnt
            else if tag = PAYLOAD_RANGE then next_payload_range this1 cnt
            else Inl (KSUIDError MALFORMED_DATA)))"

text \<open>
  \<^verbatim>\<open>toArray()\<close>: the loop \<^verbatim>\<open>while (iter.next()) result.push(iter.ksuid)\<close>. It need
  not end (a range whose count no longer changes when 1 is subtracted), so its result
  is an option.
\<close>

partial_function (option) toArray_loop ::
  "CompressedSetIter \<Rightarrow> KSUID list \<Rightarrow> (error + KSUID list) option" where
  "toArray_loop iter result =
     (case CompressedSetIter_next iter of
        Inl e \<Rightarrow> Some (Inl e)
      | Inr (found, iter1) \<Rightarrow>
          if found then toArray_loop iter1 (result @ [ksuid iter1]) else Some (Inr result))"

declare toArray_loop.simps [code]

definition CompressedSet_toArray :: "buffer \<Rightarrow> (error + KSUID list) option" where
  "CompressedSet_toArray c = toArray_loop (new_CompressedSetIter c) []"

section \<open>Example inputs\<close>

text \<open>
  \<open>ksuid_of t p\<close> is the identifier with timestamp \<open>t\<close> and payload \<open>p\<close>: 4 big-endian
  bytes of \<open>t\<close> followed by 16 big-endian bytes of \<open>p\<close>. \<open>heap_with ids\<close> is a store
  whose only array, at reference 0, holds \<open>ids\<close>. \<open>compress_toArray ids\<close> is
  \<^verbatim>\<open>CompressedSet.compress(...ids).toArray()\<close>.
\<close>

definition ksuid_of :: "int \<Rightarrow> int \<Rightarrow> KSUID" where
  "ksuid_of t p = KSUID (be_bytes 4 t @ be_bytes 16 p)"

definition heap_with :: "KSUID list \<Rightarrow> heap" where
  "heap_with ids = \<lparr>arrays = (\<lambda>r. [])(0 := ids), next_ref = 1\<rparr>"

definition compress_toArray :: "KSUID list \<Rightarrow> (error + KSUID list) option" where
  "compress_toArray ids =
     (case snd (CompressedSet_compress (heap_with ids) 0) of
        Inl e \<Rightarrow> Some (Inl e)
      | Inr c \<Rightarrow> CompressedSet_toArray c)"

text \<open>
  Four identifiers of timestamp 0 in ascending order: a run of three consecutive
  payloads, then a gap. The second list is such a run just below the largest payload.
  \<open>after_raw\<close> is the state of the encoder's loop when it is entered for the first
  list, in a buffer of 25 bytes.
\<close>

definition run_then_gap :: "KSUID list" where
  "run_then_gap = [ksuid_of 0 0, ksuid_of 0 1, ksuid_of 0 2, ksuid_of 0 4]"

definition run_below_max :: "KSUID list" where
  "run_below_max =
     [ksuid_of 5 (2 ^ 128 - 5), ksuid_of 5 (2 ^ 128 - 4), ksuid_of 5 (2 ^ 128 - 3),
      ksuid_of 5 (2 ^ 128 - 1)]"

definition after_raw :: enc where
  "after_raw = \<lparr>enc_buffer = Buffer_alloc 25, enc_pos = 21, enc_timestamp = 0,
                 enc_lastValue = Uint128_zero\<rparr>"

section \<open>Properties of Uint128\<close>

lemma U64_MAX_mask: "U64_MAX = mask 64"
  by (simp add: U64_MAX_def mask_eq_exp_minus_1)

lemma and_U64_MAX: "x AND U64_MAX = x mod 2 ^ 64"
  by (simp add: U64_MAX_mask flip: take_bit_eq_mask add: take_bit_eq_mod)

lemma mod64_bounds: "0 \<le> (x::int) mod 2 ^ 64" "(x::int) mod 2 ^ 64 \<le> U64_MAX"
proof -
  show "0 \<le> x mod 2 ^ 64" by simp
  have "x mod 2 ^ 64 < 2 ^ 64" by (rule pos_mod_bound) simp
  then show "x mod 2 ^ 64 \<le> U64_MAX" by (simp add: U64_MAX_def)
qed

lemma new_Uint128_inv: "Uint128_inv (new_Uint128 l h)"
  using mod64_bounds [of l] mod64_bounds [of h]
  by (simp only: Uint128_inv_def new_Uint128_def and_U64_MAX Uint128.simps)

lemma split_mod_square: fixes x y m :: int assumes "0 \<le> y" "y < m"
  shows "(x * m + y) mod (m * m) = (x mod m) * m + y"
proof -
  have m: "0 < m" using assms by linarith
  have d: "(x * m + y) div m = x" using assms m by (simp add: div_pos_pos_trivial)
  have r: "(x * m + y) mod m = y" using assms m by (simp add: mod_pos_pos_trivial)
  have "(x * m + y) mod (m * m) = m * ((x * m + y) div m mod m) + (x * m + y) mod m"
    using m by (intro zmod_zmult2_eq) simp
  also have "\<dots> = m * (x mod m) + y" by (simp only: d r)
  finally show ?thesis by (simp add: mult.commute)
qed

lemma be_value_snoc: "be_value (bs @ [b]) = be_value bs * 256 + uint b"
  by (simp add: be_value_def)

lemma be_value_snoc_div: "(x * 256 + uint (b::8 word)) div 256 = x"
proof -
  have "uint b < 256" using uint_lt2p [of b] by simp
  then show ?thesis by (simp add: div_pos_pos_trivial)
qed

lemma byte_times_256: "(w :: 8 word) * 256 = 0"
proof -
  have z: "(256 :: 8 word) = 0" by simp
  show ?thesis by (subst z) simp
qed

lemma word_of_int_snoc: "(word_of_int (x * 256 + uint b) :: 8 word) = b"
  by (simp add: byte_times_256)

lemma be_bytes_be_value: "be_bytes (length bs) (be_value bs) = bs"
  by (induction bs rule: rev_induct) (simp_all add: be_value_snoc be_value_snoc_div byte_times_256)

lemma be_value_bound: "0 \<le> be_value bs \<and> be_value bs < 256 ^ length bs"
proof (induction bs rule: rev_induct)
  case Nil
  then show ?case by (simp add: be_value_def)
next
  case (snoc b bs)
  have "uint b < 256" using uint_lt2p [of b] by simp
  moreover have "0 \<le> uint b" by simp
  ultimately show ?case using snoc by (simp add: be_value_snoc) 
qed

lemma Uint128_add_halves:
  "low (Uint128_add a b) = (low a + low b) mod 2 ^ 64"
  "high (Uint128_add a b) =
     (high a + high b + (if low a + low b > U64_MAX then 1 else 0)) mod 2 ^ 64"
  by (simp_all only: Uint128_add_def new_Uint128_def Let_def and_U64_MAX Uint128.simps
        mod_mod_trivial)

lemma Uint128_sub_halves:
  "low (Uint128_sub a b) =
     (if low a - low b < 0 then low a - low b + 2 ^ 64 else low a - low b) mod 2 ^ 64"
  "high (Uint128_sub a b) =
     (high a - high b - (if low a - low b < 0 then 1 else 0)) mod 2 ^ 64"
  by (simp_all only: Uint128_sub_def new_Uint128_def Let_def and_U64_MAX Uint128.simps
        mod_mod_trivial push_bit_of_1)

lemma Uint128_add_value:
  assumes "Uint128_inv a" and "Uint128_inv b"
  shows "Uint128_value (Uint128_add a b) = (Uint128_value a + Uint128_value b) mod 2 ^ 128"
proof -
  define M :: int where "M = 2 ^ 64"
  define c :: int where "c = (if low a + low b > U64_MAX then 1 else 0)"
  have M: "0 < M" by (simp add: M_def)
  have U: "U64_MAX = M - 1" by (simp add: M_def U64_MAX_def)
  have MM: "(2::int) ^ 128 = M * M" by (simp add: M_def)
  have la: "0 \<le> low a" "low a < M" and lb: "0 \<le> low b" "low b < M"
    using assms by (simp_all add: Uint128_inv_def U)
  have lo: "c * M + (low a + low b) mod M = low a + low b"
  proof (cases "low a + low b > U64_MAX")
    case True
    then have ge: "0 \<le> low a + low b - M" "low a + low b - M < M"
      using la lb U by linarith+
    have "(low a + low b) mod M = (low a + low b - M) mod M"
      by (simp only: minus_mod_self2)
    also have "\<dots> = low a + low b - M"
      using ge by (rule mod_pos_pos_trivial)
    finally show ?thesis using True by (simp add: c_def)
  next
    case False
    then have "(low a + low b) mod M = low a + low b"
      using la lb U by (simp add: mod_pos_pos_trivial)
    with False show ?thesis by (simp add: c_def)
  qed
  have y: "0 \<le> (low a + low b) mod M" "(low a + low b) mod M < M"
    using M by simp_all
  have "Uint128_value (Uint128_add a b)
      = ((high a + high b + c) mod M) * M + (low a + low b) mod M"
    by (simp only: Uint128_value_def Uint128_add_halves c_def M_def)
  also have "\<dots> = ((high a + high b + c) * M + (low a + low b) mod M) mod (M * M)"
    using split_mod_square [OF y] by simp
  also have "(high a + high b + c) * M + (low a + low b) mod M
      = (high a + high b) * M + (c * M + (low a + low b) mod M)"
    by (simp add: algebra_simps)
  also have "\<dots> = (high a + high b) * M + (low a + low b)"
    by (simp only: lo)
  also have "\<dots> = Uint128_value a + Uint128_value b"
    by (simp add: Uint128_value_def M_def algebra_simps)
  finally show ?thesis by (simp only: MM)
qed

lemma Uint128_sub_value:
  assumes "Uint128_inv a" and "Uint128_inv b"
  shows "Uint128_value (Uint128_sub a b) = (Uint128_value a - Uint128_value b) mod 2 ^ 128"
proof -
  define M :: int where "M = 2 ^ 64"
  define c :: int where "c = (if low a - low b < 0 then 1 else 0)"
  define nl :: int where "nl = (if low a - low b < 0 then low a - low b + M else low a - low b)"
  have M: "0 < M" by (simp add: M_def)
  have U: "U64_MAX = M - 1" by (simp add: M_def U64_MAX_def)
  have MM: "(2::int) ^ 128 = M * M" by (simp add: M_def)
  have la: "0 \<le> low a" "low a < M" and lb: "0 \<le> low b" "low b < M"
    using assms by (simp_all add: Uint128_inv_def U)
  have y: "0 \<le> nl" "nl < M" using la lb by (simp_all add: nl_def)
  have lo: "nl - c * M = low a - low b" by (simp add: nl_def c_def)
  have "Uint128_value (Uint128_sub a b) = ((high a - high b - c) mod M) * M + nl mod M"
    by (simp only: Uint128_value_def Uint128_sub_halves c_def nl_def M_def)
  also have "nl mod M = nl" using y by (simp add: mod_pos_pos_trivial)
  also have "((high a - high b - c) mod M) * M + nl = ((high a - high b - c) * M + nl) mod (M * M)"
    using split_mod_square [OF y] by simp
  also have "(high a - high b - c) * M + nl = (high a - high b) * M + (nl - c * M)"
    by (simp add: algebra_simps)
  also have "\<dots> = (high a - high b) * M + (low a - low b)"
    by (simp only: lo)
  also have "\<dots> = Uint128_value a - Uint128_value b"
    by (simp add: Uint128_value_def M_def algebra_simps)
  finally show ?thesis by (simp only: MM)
qed

lemma Uint128_add_inv: "Uint128_inv (Uint128_add a b)"
  by (simp only: Uint128_add_def Let_def new_Uint128_inv)

lemma Uint128_sub_inv: "Uint128_inv (Uint128_sub a b)"
  by (simp only: Uint128_sub_def Let_def new_Uint128_inv)

lemma Uint128_add_max_one: "Uint128_add Uint128_max Uint128_one = Uint128_zero"
  by code_simp

lemma Uint128_sub_zero_one: "Uint128_sub Uint128_zero Uint128_one = Uint128_max"
  by code_simp

lemma Uint128_one_halves: "low Uint128_one = 1" "high Uint128_one = 0"
  by code_simp+

lemma Uint128_incr_add: "Uint128_incr x = Uint128_add x Uint128_one"
  by (simp only: Uint128_one_halves Uint128_incr_def Uint128_add_def Let_def add_0_right
      and_U64_MAX mod_mod_trivial)

lemma Uint128_decr_sub: "Uint128_decr x = Uint128_sub x Uint128_one"
  by (simp only: Uint128_one_halves Uint128_decr_def Uint128_sub_def Let_def diff_zero)


lemma be_value_u64:
  assumes "length bs = 8"
  shows "0 \<le> be_value bs" and "be_value bs \<le> 0xffffffffffffffff"
    and "be_value bs AND U64_MAX = be_value bs"
proof -
  have b: "0 \<le> be_value bs \<and> be_value bs < 256 ^ length bs" by (rule be_value_bound)
  then show "0 \<le> be_value bs" by simp
  from b assms show "be_value bs \<le> 0xffffffffffffffff" by simp
  from b assms have "be_value bs mod 2 ^ 64 = be_value bs"
    by (intro mod_pos_pos_trivial) simp_all
  then show "be_value bs AND U64_MAX = be_value bs" by (simp only: and_U64_MAX)
qed

lemma be_bytes_u64: "length bs = 8 \<Longrightarrow> be_bytes 8 (be_value bs) = bs"
  using be_bytes_be_value [of bs] by simp

lemma makeUint128FromPayload_ok:
  assumes "length b = 16"
  shows "makeUint128FromPayload b
       = Inr \<lparr>low = be_value (drop 8 b), high = be_value (take 8 b)\<rparr>"
proof -
  have "length (take 8 b) = 8" "length (drop 8 b) = 8" using assms by simp_all
  then have "be_value (take 8 b) AND U64_MAX = be_value (take 8 b)"
    "be_value (drop 8 b) AND U64_MAX = be_value (drop 8 b)"
    by (simp_all only: be_value_u64)
  then show ?thesis
    using assms by (simp add: makeUint128FromPayload_def readBigUInt64BE_def new_Uint128_def)
qed

lemma Uint128_bytes_halves:
  assumes "length hs = 8" and "length ls = 8"
  shows "Uint128_bytes \<lparr>low = be_value ls, high = be_value hs\<rparr> = Inr (hs @ ls)"
proof -
  have h: "\<not> (be_value hs < 0 \<or> be_value hs > 0xffffffffffffffff)"
    using be_value_u64 [OF assms(1)] by simp
  have l: "\<not> (be_value ls < 0 \<or> be_value ls > 0xffffffffffffffff)"
    using be_value_u64 [OF assms(2)] by simp
  have w1: "writeBigUInt64BE (Buffer_alloc 16) (be_value hs) 0 = Inr (hs @ replicate 8 0)"
    using h assms(1)
    by (simp add: writeBigUInt64BE_def Buffer_alloc_def copy_into_def be_bytes_u64
        del: be_bytes.simps)
  have w2: "writeBigUInt64BE (hs @ replicate 8 0) (be_value ls) 8 = Inr (hs @ ls)"
    using l assms
    by (simp add: writeBigUInt64BE_def copy_into_def be_bytes_u64 del: be_bytes.simps)
  show ?thesis by (simp add: Uint128_bytes_def w1 w2)
qed

text \<open>
  C6. For all Uint128 values \<open>a\<close> and \<open>b\<close> (both halves 64-bit values, as the constructor
  leaves them), \<open>add\<close> is addition and \<open>sub\<close> is subtraction modulo \<open>2 ^ 128\<close>; both
  halves of the results are again 64-bit values; the low half is the sum (difference)
  of the low halves modulo \<open>2 ^ 64\<close>, and the high half takes exactly the one carry
  (borrow) of the low halves. In particular \<open>add max one = zero\<close> and
  \<open>sub zero one = max\<close>.
\<close>

theorem Uint128_add_sub_wraparound:
  assumes "Uint128_inv a" and "Uint128_inv b"
  shows "Uint128_value (Uint128_add a b) = (Uint128_value a + Uint128_value b) mod 2 ^ 128
       \<and> Uint128_value (Uint128_sub a b) = (Uint128_value a - Uint128_value b) mod 2 ^ 128
       \<and> Uint128_inv (Uint128_add a b)
       \<and> Uint128_inv (Uint128_sub a b)
       \<and> low (Uint128_add a b) = (low a + low b) mod 2 ^ 64
       \<and> high (Uint128_add a b)
           = (high a + high b + (if low a + low b > U64_MAX then 1 else 0)) mod 2 ^ 64
       \<and> low (Uint128_sub a b) = (low a - low b) mod 2 ^ 64
       \<and> high (Uint128_sub a b)
           = (high a - high b - (if low a - low b < 0 then 1 else 0)) mod 2 ^ 64
       \<and> Uint128_add Uint128_max Uint128_one = Uint128_zero
       \<and> Uint128_sub Uint128_zero Uint128_one = Uint128_max"
proof -
  have "low (Uint128_sub a b) = (low a - low b) mod 2 ^ 64"
    by (simp only: Uint128_sub_halves(1) mod_add_self2 simp_thms split: if_split)
  then show ?thesis
    using Uint128_add_value [OF assms] Uint128_sub_value [OF assms]
    by (simp only: Uint128_add_inv Uint128_sub_inv Uint128_add_halves Uint128_sub_halves(2)
        Uint128_add_max_one Uint128_sub_zero_one simp_thms)
qed

theorem Uint128_add_sub_wraparound_witness:
  "Uint128_inv \<lparr>low = U64_MAX, high = 5\<rparr> \<and> Uint128_inv \<lparr>low = 1, high = U64_MAX\<rparr>
   \<and> Uint128_value (Uint128_add \<lparr>low = U64_MAX, high = 5\<rparr> \<lparr>low = 1, high = U64_MAX\<rparr>)
       = 5 * 2 ^ 64
   \<and> Uint128_value (Uint128_sub \<lparr>low = 1, high = U64_MAX\<rparr> \<lparr>low = U64_MAX, high = 5\<rparr>)
       = (2 ^ 64 - 7) * 2 ^ 64 + 2"
proof -
  have a: "Uint128_inv \<lparr>low = U64_MAX, high = 5\<rparr>"
    and b: "Uint128_inv \<lparr>low = 1, high = U64_MAX\<rparr>"
    by (simp_all add: Uint128_inv_def U64_MAX_def)
  have "Uint128_value (Uint128_add \<lparr>low = U64_MAX, high = 5\<rparr> \<lparr>low = 1, high = U64_MAX\<rparr>)
      = (Uint128_value \<lparr>low = U64_MAX, high = 5\<rparr>
         + Uint128_value \<lparr>low = 1, high = U64_MAX\<rparr>) mod 2 ^ 128"
    using Uint128_add_sub_wraparound [OF a b] by (simp only:)
  moreover
  have "Uint128_value (Uint128_sub \<lparr>low = 1, high = U64_MAX\<rparr> \<lparr>low = U64_MAX, high = 5\<rparr>)
      = (Uint128_value \<lparr>low = 1, high = U64_MAX\<rparr>
         - Uint128_value \<lparr>low = U64_MAX, high = 5\<rparr>) mod 2 ^ 128"
    using Uint128_add_sub_wraparound [OF b a] by (simp only:)
  ultimately show ?thesis
    using a b by (simp add: Uint128_value_def U64_MAX_def)
qed

text \<open>
  C7. For every Uint128 value \<open>x\<close>, \<open>incr x\<close> is \<open>add x one\<close> and \<open>decr x\<close> is
  \<open>sub x one\<close>; hence \<open>incr max = zero\<close> and \<open>decr zero = max\<close>.
\<close>

theorem Uint128_incr_decr_as_add_sub:
  "Uint128_incr x = Uint128_add x Uint128_one
   \<and> Uint128_decr x = Uint128_sub x Uint128_one
   \<and> Uint128_incr Uint128_max = Uint128_zero
   \<and> Uint128_decr Uint128_zero = Uint128_max"
  by (simp only: Uint128_incr_add Uint128_decr_sub Uint128_add_max_one Uint128_sub_zero_one
      simp_thms)

text \<open>
  C8. The byte conversion of Uint128 round-trips: \<open>makeUint128FromPayload\<close> succeeds
  exactly on the buffers of 16 bytes, and then \<open>bytes\<close> of the result is the buffer
  again; on every other length it fails, with the error of \<^verbatim>\<open>invalidBufferLength\<close>
  (the length error of this class, code \<^verbatim>\<open>INVALID_BUFFER_SIZE\<close>).
\<close>

theorem Uint128_bytes_roundtrip:
  "(case makeUint128FromPayload b of
      Inl e \<Rightarrow> e = KSUIDError INVALID_BUFFER_SIZE \<and> length b \<noteq> 16
    | Inr u \<Rightarrow> length b = 16 \<and> Uint128_bytes u = Inr b)
   \<and> ((\<exists>e. makeUint128FromPayload b = Inl e) \<longleftrightarrow> length b \<noteq> 16)"
proof (cases "length b = 16")
  case True
  have "Uint128_bytes \<lparr>low = be_value (drop 8 b), high = be_value (take 8 b)\<rparr>
      = Inr (take 8 b @ drop 8 b)"
    using True by (intro Uint128_bytes_halves) simp_all
  then show ?thesis using True by (simp add: makeUint128FromPayload_ok)
next
  case False
  then show ?thesis by (simp add: makeUint128FromPayload_def)
qed

section \<open>Properties of the varint helpers\<close>



text \<open>
  C3. The claim: the varint length is the minimal number of bytes, and for the 64-bit
  case of the PayloadRange count every value from 256 on has a length above 1 and its
  bytes give the value back. The code: the first mask of \<open>varintLength64\<close>, the literal
  \<^verbatim>\<open>0xffffffffffffff00\<close>, is the number \<open>2 ^ 64\<close>, which the 32-bit \<^verbatim>\<open>&\<close> reads as 0,
  so the length is 1 for every value. At 256 the one byte written is 0 and the decoder
  reads the count 0. \<open>varintLength64BigInt\<close>, the same chain on \<^verbatim>\<open>bigint\<close>, answers 2.
\<close>

theorem varintLength64_of_256:
  "varintLength64 256 = 1
   \<and> appendVarint64 [7] 0 256 (varintLength64 256) = Inr [0]
   \<and> readVarint64 [0] = Inr 0
   \<and> varintLength64BigInt 256 = 2"
  by code_simp

section \<open>Properties of the encoder\<close>






lemma wf_toString: "length (toBuffer k) = 20 \<Longrightarrow> \<exists>s. KSUID_toString k = Inr s"
  by (simp add: KSUID_toString_def Base62_encode_def KSUID_BYTE_LENGTH_def Let_def)





















text \<open>
  What \<open>appendCompressed\<close> hands to its loop. The array \<^verbatim>\<open>uniqueIds\<close> that it fills and
  sorts holds identifiers of 20 bytes with pairwise different strings, no more of them
  than the argument has: the loop over \<^verbatim>\<open>seen\<close> establishes it and the swaps of
  \<^verbatim>\<open>sort\<close> keep it. For an argument of identifiers of 20 bytes the call returns
  \<open>encode_sorted\<close> of that array, which enters \<open>encode_loop\<close> at index 1 with the
  locals of the first identifier; the result of \<open>encode_loop\<close> is the one of the last
  turn in \<open>encode_visits\<close>.
\<close>

lemma swap_keeps:
  assumes "i < length a" and "j < length a"
  shows "length (swap a i j) = length a"
    and "set (swap a i j) = set a"
    and "distinct (map f (swap a i j)) = distinct (map f a)"
proof -
  show "length (swap a i j) = length a" by (simp add: swap_def)
  show "set (swap a i j) = set a" using assms by (simp add: swap_def set_swap)
  have "map f (swap a i j) = (map f a)[i := f (a ! j), j := f (a ! i)]"
    by (simp add: swap_def map_update)
  also have "\<dots> = (map f a)[i := map f a ! j, j := map f a ! i]"
    using assms by simp
  finally show "distinct (map f (swap a i j)) = distinct (map f a)"
    using assms distinct_swap [of i "map f a" j] by simp
qed

lemma partition_loop_keeps:
  "partition_loop a pivot i j hi = (a', i') \<Longrightarrow> - 1 \<le> i \<Longrightarrow> i < j \<Longrightarrow>
   hi < int (length a) \<Longrightarrow>
   length a' = length a \<and> set a' = set a \<and> distinct (map f a') = distinct (map f a)"
proof (induction a pivot i j hi arbitrary: a' i' rule: partition_loop.induct)
  case (1 a pivot i j hi)
  show ?case
  proof (cases "j < hi")
    case False
    with "1.prems" show ?thesis by (simp add: partition_loop.simps [of a pivot i j hi])
  next
    case True
    show ?thesis
    proof (cases "KSUID_compare (a ! nat j) pivot < 0")
      case lt: True
      with True "1.prems"
      have r: "partition_loop (swap a (nat (i + 1)) (nat j)) pivot (i + 1) (j + 1) hi = (a', i')"
        by (simp add: partition_loop.simps [of a pivot i j hi])
      have b: "nat (i + 1) < length a" "nat j < length a"
        using "1.prems" True by simp_all
      have "length a' = length (swap a (nat (i + 1)) (nat j))
          \<and> set a' = set (swap a (nat (i + 1)) (nat j))
          \<and> distinct (map f a') = distinct (map f (swap a (nat (i + 1)) (nat j)))"
        using "1.prems" True b
        by (intro "1.IH"(1) [OF True lt r]) (simp_all add: swap_keeps)
      then show ?thesis by (simp add: swap_keeps [OF b])
    next
      case ge: False
      with True "1.prems" have r: "partition_loop a pivot i (j + 1) hi = (a', i')"
        by (simp add: partition_loop.simps [of a pivot i j hi])
      show ?thesis using "1.prems" True by (intro "1.IH"(2) [OF True ge r]) simp_all
    qed
  qed
qed

lemma quickSort_partition_keeps:
  assumes "quickSort_partition a lo hi = (a', i)" and "0 \<le> lo" and "lo < hi"
    and "hi < int (length a)"
  shows "length a' = length a \<and> set a' = set a \<and> distinct (map f a') = distinct (map f a)"
proof -
  obtain a1 i0 where p: "partition_loop a (a ! nat hi) (lo - 1) lo hi = (a1, i0)"
    by (cases "partition_loop a (a ! nat hi) (lo - 1) lo hi")
  have k: "length a1 = length a \<and> set a1 = set a \<and> distinct (map f a1) = distinct (map f a)"
    using assms by (intro partition_loop_keeps [OF p]) simp_all
  from partition_loop_bounds [OF p] assms have b: "lo - 1 \<le> i0" "i0 + 1 \<le> hi" by simp_all
  then have bb: "nat (i0 + 1) < length a1" "nat hi < length a1" using assms k by simp_all
  from assms(1) p have "a' = swap a1 (nat (i0 + 1)) (nat hi) \<or> a' = a1"
    by (auto simp: quickSort_partition_def Let_def split: if_splits)
  then show ?thesis using k swap_keeps [OF bb] by auto
qed

lemma quickSort_keeps:
  "0 \<le> lo \<Longrightarrow> hi < int (length a) \<Longrightarrow>
   length (quickSort a lo hi) = length a \<and> set (quickSort a lo hi) = set a
   \<and> distinct (map f (quickSort a lo hi)) = distinct (map f a)"
proof (induction a lo hi rule: quickSort.induct)
  case (1 a lo hi)
  show ?case
  proof (cases "lo < hi")
    case False
    then show ?thesis by (simp add: quickSort.simps [of a lo hi])
  next
    case True
    obtain a1 i where p: "quickSort_partition a lo hi = (a1, i)"
      by (cases "quickSort_partition a lo hi")
    have k: "length a1 = length a \<and> set a1 = set a \<and> distinct (map f a1) = distinct (map f a)"
      using quickSort_partition_keeps [OF p "1.prems"(1) True "1.prems"(2)] .
    from quickSort_partition_bounds [OF p [symmetric] True] have b: "lo \<le> i" "i \<le> hi" by simp_all
    have k1: "length (quickSort a1 lo (i - 1)) = length a1
        \<and> set (quickSort a1 lo (i - 1)) = set a1
        \<and> distinct (map f (quickSort a1 lo (i - 1))) = distinct (map f a1)"
      using "1.prems" b k by (intro "1.IH"(1) [OF True p [symmetric]]) simp_all
    have k2: "length (quickSort (quickSort a1 lo (i - 1)) (i + 1) hi)
          = length (quickSort a1 lo (i - 1))
        \<and> set (quickSort (quickSort a1 lo (i - 1)) (i + 1) hi) = set (quickSort a1 lo (i - 1))
        \<and> distinct (map f (quickSort (quickSort a1 lo (i - 1)) (i + 1) hi))
          = distinct (map f (quickSort a1 lo (i - 1)))"
      using "1.prems" b k k1 by (intro "1.IH"(2) [OF True p [symmetric]]) simp_all
    have "quickSort a lo hi = quickSort (quickSort a1 lo (i - 1)) (i + 1) hi"
      using True p by (simp add: quickSort.simps [of a lo hi])
    with k k1 k2 show ?thesis by simp
  qed
qed

lemma sort_ids_keeps:
  "length (sort_ids xs) = length xs \<and> set (sort_ids xs) = set xs
   \<and> distinct (map f (sort_ids xs)) = distinct (map f xs)"
  using quickSort_keeps [of 0 "int (length xs) - 1" xs f] by (simp add: sort_ids_def)

lemma toString_wf: "KSUID_toString k = Inr key \<Longrightarrow> length (toBuffer k) = 20"
  by (simp add: KSUID_toString_def Base62_encode_def KSUID_BYTE_LENGTH_def split: if_splits)

lemma unique_loop_inv:
  "unique_loop xs seen u h = (h', eo) \<Longrightarrow>
   \<forall>k \<in> set (arrays h u). \<exists>key \<in> seen. KSUID_toString k = Inr key \<Longrightarrow>
   distinct (map KSUID_toString (arrays h u)) \<Longrightarrow>
   distinct (map KSUID_toString (arrays h' u))
   \<and> (\<forall>k \<in> set (arrays h' u). \<exists>key. KSUID_toString k = Inr key)
   \<and> length (arrays h' u) \<le> length (arrays h u) + length xs"
proof (induction xs arbitrary: seen h)
  case Nil
  then show ?case by auto
next
  case (Cons x xs)
  show ?case
  proof (cases "KSUID_toString x")
    case (Inl e)
    with Cons.prems show ?thesis by auto
  next
    case (Inr key)
    show ?thesis
    proof (cases "key \<in> seen")
      case True
      with Inr Cons.prems have "unique_loop xs seen u h = (h', eo)" by simp
      from Cons.IH [OF this Cons.prems(2) Cons.prems(3)] show ?thesis by simp
    next
      case False
      with Inr Cons.prems
      have r: "unique_loop xs (insert key seen) u (array_push h u x) = (h', eo)" by simp
      have a: "arrays (array_push h u x) u = arrays h u @ [x]" by (simp add: array_push_def)
      have s: "\<forall>k \<in> set (arrays (array_push h u x) u).
                 \<exists>key' \<in> insert key seen. KSUID_toString k = Inr key'"
        using Cons.prems(2) Inr by (auto simp: a)
      have "KSUID_toString x \<notin> KSUID_toString ` set (arrays h u)"
        using Cons.prems(2) Inr False by auto
      then have d: "distinct (map KSUID_toString (arrays (array_push h u x) u))"
        using Cons.prems(3) by (simp add: a)
      from Cons.IH [OF r s d] show ?thesis by (simp add: a)
    qed
  qed
qed

lemma unique_loop_no_error:
  "\<forall>k \<in> set xs. length (toBuffer k) = 20 \<Longrightarrow> snd (unique_loop xs seen u h) = None"
proof (induction xs arbitrary: seen h)
  case Nil
  then show ?case by simp
next
  case (Cons x xs)
  from Cons.prems wf_toString [of x] obtain key where "KSUID_toString x = Inr key" by auto
  with Cons show ?case by simp
qed

lemma unique_loop_grows:
  "length (arrays h u) \<le> length (arrays (fst (unique_loop xs seen u h)) u)"
proof (induction xs arbitrary: seen h)
  case Nil
  then show ?case by simp
next
  case (Cons x xs)
  show ?case
  proof (cases "KSUID_toString x")
    case (Inl e)
    then show ?thesis by simp
  next
    case (Inr key)
    show ?thesis
    proof (cases "key \<in> seen")
      case True
      with Inr Cons.IH [of h seen] show ?thesis by simp
    next
      case False
      have "length (arrays h u) \<le> length (arrays (array_push h u x) u)"
        by (simp add: array_push_def)
      also note Cons.IH [of "array_push h u x" "insert key seen"]
      finally show ?thesis using Inr False by simp
    qed
  qed
qed

lemma appendCompressed_uniqueIds:
  assumes "length (arrays h ids) \<noteq> 0"
  shows "(\<forall>k \<in> set (arrays (fst (appendCompressed h buf ids)) (next_ref h)).
            length (toBuffer k) = 20)
       \<and> distinct (map KSUID_toString (arrays (fst (appendCompressed h buf ids)) (next_ref h)))
       \<and> length (arrays (fst (appendCompressed h buf ids)) (next_ref h))
           \<le> length (arrays h ids)"
proof -
  define u where "u = next_ref h"
  define h1 where "h1 = h\<lparr>arrays := (arrays h)(u := []), next_ref := Suc u\<rparr>"
  have na: "new_array h = (u, h1)" by (simp add: new_array_def u_def h1_def)
  obtain h2 eo where ul: "unique_loop (arrays h1 ids) {} u h1 = (h2, eo)"
    by (cases "unique_loop (arrays h1 ids) {} u h1")
  have e: "arrays h1 u = []" by (simp add: h1_def)
  have "length (arrays h1 ids) \<le> length (arrays h ids)" by (simp add: h1_def)
  with unique_loop_inv [OF ul] e
  have k2: "distinct (map KSUID_toString (arrays h2 u))"
    "\<forall>k \<in> set (arrays h2 u). \<exists>key. KSUID_toString k = Inr key"
    "length (arrays h2 u) \<le> length (arrays h ids)"
    by simp_all
  define h3 where "h3 = (if \<not> isSorted (arrays h2 u) then sort_array h2 u else h2)"
  have a3: "arrays h3 u = arrays h2 u \<or> arrays h3 u = sort_ids (arrays h2 u)"
    by (simp add: h3_def sort_array_def)
  have k3: "distinct (map KSUID_toString (arrays h3 u))
      \<and> set (arrays h3 u) = set (arrays h2 u) \<and> length (arrays h3 u) = length (arrays h2 u)"
    using a3 k2(1) sort_ids_keeps [of "arrays h2 u" KSUID_toString] by auto
  have "fst (appendCompressed h buf ids) = h2 \<or> fst (appendCompressed h buf ids) = h3"
    using assms na ul by (cases eo) (simp_all add: appendCompressed_def Let_def h3_def)
  then have "(\<forall>k \<in> set (arrays (fst (appendCompressed h buf ids)) u).
            length (toBuffer k) = 20)
       \<and> distinct (map KSUID_toString (arrays (fst (appendCompressed h buf ids)) u))
       \<and> length (arrays (fst (appendCompressed h buf ids)) u) \<le> length (arrays h ids)"
    using k2 k3 toString_wf by auto
  then show ?thesis by (simp add: u_def)
qed

lemma encode_loop_visits:
  "encode_loop ids i s =
     (case encode_visits ids i s of
        [] \<Rightarrow> Inr s
      | v # vs \<Rightarrow>
          (case encode_turn ids (fst (last (v # vs))) (snd (last (v # vs))) of
             Inl e \<Rightarrow> Inl e
           | Inr (Break s1) \<Rightarrow> Inr s1
           | Inr (Continue count s1) \<Rightarrow> Inr s1))"
proof (induction ids i s rule: encode_loop.induct)
  case (1 ids i s)
  show ?case
  proof (cases "i < length ids")
    case False
    then show ?thesis
      by (simp add: encode_loop.simps [of ids i s] encode_visits.simps [of ids i s])
  next
    case True
    show ?thesis
    proof (cases "encode_turn ids i s")
      case (Inl e)
      with True show ?thesis
        by (simp add: encode_loop.simps [of ids i s] encode_visits.simps [of ids i s])
    next
      case (Inr t)
      show ?thesis
      proof (cases t)
        case (Break s1)
        with True Inr show ?thesis
          by (simp add: encode_loop.simps [of ids i s] encode_visits.simps [of ids i s])
      next
        case (Continue count s1)
        note IH = "1.IH" [OF True Inr Continue]
        show ?thesis
        proof (cases "encode_visits ids (i + count + 1) s1")
          case Nil
          then have "\<not> i + count + 1 < length ids"
            by (subst (asm) encode_visits.simps) (simp split: if_splits)
          then have "encode_loop ids (i + count + 1) s1 = Inr s1"
            by (subst encode_loop.simps) simp
          with True Inr Continue Nil show ?thesis
            by (simp add: encode_loop.simps [of ids i s] encode_visits.simps [of ids i s])
        next
          case (Cons v vs)
          with True Inr Continue IH show ?thesis
            by (simp add: encode_loop.simps [of ids i s] encode_visits.simps [of ids i s])
        qed
      qed
    qed
  qed
qed

lemma encode_sorted_entry:
  assumes "KSUID_timestamp (ids ! 0) = Inr ts0"
    and "uint128Payload (toBuffer (ids ! 0)) = Inr p0"
  shows "encode_sorted buf ids =
     (case encode_loop ids 1
             \<lparr>enc_buffer = copy_into (toBuffer (ids ! 0)) (set_byte buf 0 RAW_KSUID) 1,
              enc_pos = 1 + 20, enc_timestamp = ts0, enc_lastValue = p0\<rparr> of
        Inl e \<Rightarrow> Inl e
      | Inr s \<Rightarrow> Inr (subarray (enc_buffer s) 0 (enc_pos s)))"
  using assms by (simp add: encode_sorted_def Buffer_copy_def Let_def)

lemma appendCompressed_encodes:
  assumes ne: "length (arrays h ids) \<noteq> 0"
    and wf: "\<forall>k \<in> set (arrays h ids). length (toBuffer k) = 20"
    and ref: "ids < next_ref h"
  shows "snd (appendCompressed h buf ids)
       = encode_sorted buf (arrays (fst (appendCompressed h buf ids)) (next_ref h))"
proof -
  define u where "u = next_ref h"
  define h1 where "h1 = h\<lparr>arrays := (arrays h)(u := []), next_ref := Suc u\<rparr>"
  have na: "new_array h = (u, h1)" by (simp add: new_array_def u_def h1_def)
  have in1: "arrays h1 ids = arrays h ids" using ref by (simp add: h1_def u_def)
  obtain h2 eo where ul: "unique_loop (arrays h1 ids) {} u h1 = (h2, eo)"
    by (cases "unique_loop (arrays h1 ids) {} u h1")
  have eo: "eo = None" using unique_loop_no_error [of "arrays h1 ids" "{}" u h1] wf ul in1 by simp
  obtain x xs where xs: "arrays h1 ids = x # xs"
    using ne in1 by (cases "arrays h ids") simp_all
  from wf xs in1 wf_toString [of x] obtain key where key: "KSUID_toString x = Inr key" by auto
  have "h2 = fst (unique_loop xs {key} u (array_push h1 u x))"
    using ul xs key by simp
  with unique_loop_grows [of "array_push h1 u x" u xs "{key}"]
  have n2: "length (arrays h2 u) \<noteq> 0" by (auto simp: array_push_def)
  define h3 where "h3 = (if \<not> isSorted (arrays h2 u) then sort_array h2 u else h2)"
  have n3: "length (arrays h3 u) \<noteq> 0"
    using n2 sort_ids_keeps [of "arrays h2 u" id] by (auto simp: h3_def sort_array_def)
  have "appendCompressed h buf ids = (h3, encode_sorted buf (arrays h3 u))"
    using ne na ul eo n3 by (simp add: appendCompressed_def Let_def h3_def)
  then show ?thesis by (simp add: u_def)
qed




text \<open>
  C2. The claim: after a PayloadRange record, \<^verbatim>\<open>lastValue\<close> is the payload of the last
  identifier of the run, so that the next delta is relative to it. The code: the turn
  for \<open>run_then_gap\<close> at index 1 writes the range record (tag 193, count 2) and adds 1
  to the index, but leaves \<^verbatim>\<open>lastValue\<close> at 1, the payload of the identifier at index
  1, although the last identifier of the run, at index 2, has payload 2: line 185
  assigns \<^verbatim>\<open>v\<close> after line 169 has assigned the payload of the last one. The next turn,
  at index 3, then writes the delta 3 for the payload 4.
\<close>

theorem lastValue_after_range_is_first_of_run:
  "encode_turn run_then_gap 1 after_raw
     = Inr (Continue 1
         \<lparr>enc_buffer = [0, 0, 0, 0, 0, 0, 0, 0, 0, 0, 0, 0, 0, 0, 0, 0, 0, 0, 0, 0, 0,
                         193, 2, 0, 0],
          enc_pos = 23, enc_timestamp = 0, enc_lastValue = \<lparr>low = 1, high = 0\<rparr>\<rparr>)
   \<and> uint128Payload (toBuffer (run_then_gap ! (1 + 1))) = Inr \<lparr>low = 2, high = 0\<rparr>
   \<and> encode_turn run_then_gap 3
         \<lparr>enc_buffer = [0, 0, 0, 0, 0, 0, 0, 0, 0, 0, 0, 0, 0, 0, 0, 0, 0, 0, 0, 0, 0,
                         193, 2, 0, 0],
          enc_pos = 23, enc_timestamp = 0, enc_lastValue = \<lparr>low = 1, high = 0\<rparr>\<rparr>
     = Inr (Continue 0
         \<lparr>enc_buffer = [0, 0, 0, 0, 0, 0, 0, 0, 0, 0, 0, 0, 0, 0, 0, 0, 0, 0, 0, 0, 0,
                         193, 2, 129, 3],
          enc_pos = 25, enc_timestamp = 0, enc_lastValue = \<lparr>low = 4, high = 0\<rparr>\<rparr>)"
  by code_simp

lemma unique_loop_frame:
  "unique_loop xs seen u h = (h', eo) \<Longrightarrow> r \<noteq> u \<Longrightarrow> arrays h' r = arrays h r"
proof (induction xs arbitrary: seen h)
  case Nil
  then show ?case by simp
next
  case (Cons x xs)
  show ?case
  proof (cases "KSUID_toString x")
    case (Inl e)
    with Cons.prems show ?thesis by simp
  next
    case (Inr key)
    show ?thesis
    proof (cases "key \<in> seen")
      case True
      with Inr Cons.prems have "unique_loop xs seen u h = (h', eo)" by simp
      from Cons.IH [OF this Cons.prems(2)] show ?thesis .
    next
      case False
      with Inr Cons.prems
      have "unique_loop xs (insert key seen) u (array_push h u x) = (h', eo)" by simp
      from Cons.IH [OF this Cons.prems(2)] Cons.prems(2) show ?thesis
        by (simp add: array_push_def)
    qed
  qed
qed

lemma appendCompressed_frame:
  assumes "r < next_ref h"
  shows "arrays (fst (appendCompressed h buf ids)) r = arrays h r"
proof (cases "length (arrays h ids) = 0")
  case True
  then show ?thesis by (simp add: appendCompressed_def)
next
  case False
  define u where "u = next_ref h"
  define h1 where "h1 = h\<lparr>arrays := (arrays h)(u := []), next_ref := Suc u\<rparr>"
  have na: "new_array h = (u, h1)" by (simp add: new_array_def u_def h1_def)
  have ru: "r \<noteq> u" using assms by (simp add: u_def)
  obtain h2 eo where ul: "unique_loop (arrays h1 ids) {} u h1 = (h2, eo)"
    by (cases "unique_loop (arrays h1 ids) {} u h1")
  have f2: "arrays h2 r = arrays h r"
    using unique_loop_frame [OF ul ru] ru by (simp add: h1_def)
  show ?thesis
  proof (cases eo)
    case (Some e)
    with False na ul f2 show ?thesis by (simp add: appendCompressed_def)
  next
    case None
    with False na ul f2 ru show ?thesis
      by (simp add: appendCompressed_def Let_def sort_array_def)
  qed
qed

text \<open>
  C10. \<open>compress\<close> leaves every array that exists before the call as it is, the array of
  its arguments among them: the arrays it fills and sorts are its own.
\<close>

theorem compress_keeps_argument:
  "r < next_ref h \<Longrightarrow> arrays (fst (CompressedSet_compress h ids)) r = arrays h r"
  by (simp add: CompressedSet_compress_def Let_def appendCompressed_frame)

theorem compress_keeps_argument_witness:
  "0 < next_ref (heap_with [ksuid_of 0 7, ksuid_of 100 3, ksuid_of 0 2, ksuid_of 0 7])
   \<and> arrays (fst (CompressedSet_compress
         (heap_with [ksuid_of 0 7, ksuid_of 100 3, ksuid_of 0 2, ksuid_of 0 7]) 0)) 0
       = [ksuid_of 0 7, ksuid_of 100 3, ksuid_of 0 2, ksuid_of 0 7]
   \<and> arrays (fst (CompressedSet_compress
         (heap_with [ksuid_of 0 7, ksuid_of 100 3, ksuid_of 0 2, ksuid_of 0 7]) 0)) 1
       = [ksuid_of 0 2, ksuid_of 0 7, ksuid_of 100 3]"
proof -
  have "arrays (fst (CompressedSet_compress
         (heap_with [ksuid_of 0 7, ksuid_of 100 3, ksuid_of 0 2, ksuid_of 0 7]) 0)) 1
       = [ksuid_of 0 2, ksuid_of 0 7, ksuid_of 100 3]"
    by code_simp
  then show ?thesis
    using compress_keeps_argument
      [of 0 "heap_with [ksuid_of 0 7, ksuid_of 100 3, ksuid_of 0 2, ksuid_of 0 7]" 0]
    by (simp add: heap_with_def)
qed

section \<open>Properties of the round trip\<close>

text \<open>
  C1. The claim: iterating the compressed set yields the sorted input without
  duplicates. The code: \<open>run_then_gap\<close> is sorted and has no duplicates, and its last
  identifier, of payload 4, comes back with payload 5. The encoder writes the delta 3
  after the range (see C2), and the decoder adds it to 2, the end of the range.
\<close>

theorem roundtrip_changes_identifier_after_range:
  "snd (CompressedSet_compress (heap_with run_then_gap) 0)
     = Inr [0, 0, 0, 0, 0, 0, 0, 0, 0, 0, 0, 0, 0, 0, 0, 0, 0, 0, 0, 0, 0, 193, 2, 129, 3]
   \<and> compress_toArray run_then_gap
     = Some (Inr [ksuid_of 0 0, ksuid_of 0 1, ksuid_of 0 2, ksuid_of 0 5])
   \<and> isSorted run_then_gap \<and> distinct run_then_gap"
  by code_simp

text \<open>
  C5. The claim: the decoded sequence is strictly ascending. The code: for
  \<open>run_below_max\<close> the identifier after the range comes back with payload 0 (the delta 3
  added to \<open>2 ^ 128 - 3\<close> wraps around), which is below its predecessor.
\<close>

theorem decoded_sequence_not_ascending:
  "compress_toArray run_below_max
     = Some (Inr [ksuid_of 5 (2 ^ 128 - 5), ksuid_of 5 (2 ^ 128 - 4), ksuid_of 5 (2 ^ 128 - 3),
                  ksuid_of 5 0])
   \<and> KSUID_compare (ksuid_of 5 (2 ^ 128 - 3)) (ksuid_of 5 0) = 1"
  by code_simp

section \<open>Properties of the decoder\<close>

lemma tags: "RAW_KSUID = 0" "TIME_DELTA = 64" "PAYLOAD_DELTA = 128" "PAYLOAD_RANGE = 192"
  by code_simp+

lemma mask_val: "js_bitor (js_bitor (js_bitor RAW_KSUID TIME_DELTA) PAYLOAD_DELTA) PAYLOAD_RANGE = 192"
  by code_simp

lemma mask_val_num: "js_bitor (js_bitor (js_bitor 0 64) 128) 192 = 192"
  by code_simp

lemma word_less_4_cases:
  fixes z :: "32 word"
  assumes "unat z < 4"
  shows "z \<in> {0, 1, 2, 3}"
proof -
  have z: "word_of_nat (unat z) = z" by simp
  from assms consider "unat z = 0" | "unat z = 1" | "unat z = 2" | "unat z = 3" by linarith
  then show ?thesis
  proof cases
    case 1
    with z [symmetric] show ?thesis by simp
  next
    case 2
    with z [symmetric] show ?thesis by simp
  next
    case 3
    with z [symmetric] show ?thesis by simp
  next
    case 4
    with z [symmetric] show ?thesis by simp
  qed
qed

lemma and_192_cases: "(x :: 32 word) AND 192 \<in> {0, 64, 128, 192}"
proof -
  have c: "(192 :: 32 word) = push_bit 6 (mask 2)"
    by (simp add: mask_eq_exp_minus_1 push_bit_eq_mult)
  have e: "x AND push_bit 6 (mask 2) = push_bit 6 (take_bit 2 (drop_bit 6 x))"
    by (rule bit_word_eqI) (auto simp: bit_simps)
  have "unat (take_bit 2 (drop_bit 6 x)) < 2 ^ 2"
    by (simp only: unsigned_take_bit_eq take_bit_nat_less_exp)
  then have "take_bit 2 (drop_bit 6 x) \<in> {0, 1, 2, 3}"
    by (intro word_less_4_cases) simp
  then have "push_bit 6 (take_bit 2 (drop_bit 6 x)) \<in> {0, 64, 128, 192}"
    by (auto simp: push_bit_eq_mult)
  then show ?thesis by (simp only: c e)
qed

lemma tag_cases: "js_bitand b 192 \<in> {0, 64, 128, 192}"
proof -
  have "(word_of_int b :: 32 word) AND 192 \<in> {0, 64, 128, 192}" by (rule and_192_cases)
  then show ?thesis by (auto simp: js_bitand_def)
qed

lemma Buffer_errs:
  "readUInt32BE b off = Inl e \<Longrightarrow> e = RangeError"
  "readBigUInt64BE b off = Inl e \<Longrightarrow> e = RangeError"
  "writeUInt32BE b v off = Inl e \<Longrightarrow> e = RangeError"
  "writeBigUInt64BE b v off = Inl e \<Longrightarrow> e = RangeError"
  "Buffer_copy src b ts = Inl e \<Longrightarrow> e = RangeError"
  by (auto simp: readUInt32BE_def readBigUInt64BE_def writeUInt32BE_def writeBigUInt64BE_def
      Buffer_copy_def split: if_splits)

lemma makeUint128FromPayload_err:
  "makeUint128FromPayload b = Inl e \<Longrightarrow> e \<noteq> KSUIDError MALFORMED_DATA"
  by (auto simp: makeUint128FromPayload_def split: if_splits sum.splits dest: Buffer_errs)

lemma uint128Payload_err: "uint128Payload b = Inl e \<Longrightarrow> e \<noteq> KSUIDError MALFORMED_DATA"
  by (auto simp: uint128Payload_def dest: makeUint128FromPayload_err)

lemma Uint128_ksuid_err: "Uint128_ksuid v t = Inl e \<Longrightarrow> e \<noteq> KSUIDError MALFORMED_DATA"
  by (auto simp: Uint128_ksuid_def split: sum.splits dest: Buffer_errs)

lemma KSUID_fromBytes_err: "KSUID_fromBytes b = Inl e \<Longrightarrow> e = KSUIDError INVALID_BUFFER_SIZE"
  by (auto simp: KSUID_fromBytes_def new_KSUID_def split: if_splits)

lemma KSUID_timestamp_err: "KSUID_timestamp k = Inl e \<Longrightarrow> e = RangeError"
  by (auto simp: KSUID_timestamp_def dest: Buffer_errs)

lemma readVarint_errs:
  "readVarint32 b = Inl e \<Longrightarrow> e = RangeError"
  "readVarint64 b = Inl e \<Longrightarrow> e = RangeError"
  "readVarint128 b = Inl e \<Longrightarrow> e \<noteq> KSUIDError MALFORMED_DATA"
  by (auto simp: readVarint32_def readVarint64_def readVarint128_def split: sum.splits
      dest: Buffer_errs makeUint128FromPayload_err)

lemma next_in_range_err: "next_in_range it = Inl e \<Longrightarrow> e \<noteq> KSUIDError MALFORMED_DATA"
  by (auto simp: next_in_range_def Let_def split: sum.splits
      dest: Uint128_ksuid_err KSUID_fromBytes_err)

lemma next_raw_err: "next_raw it = Inl e \<Longrightarrow> e \<noteq> KSUIDError MALFORMED_DATA"
  by (auto simp: next_raw_def Let_def split: sum.splits
      dest: KSUID_timestamp_err KSUID_fromBytes_err uint128Payload_err)

lemma next_time_delta_err: "next_time_delta it cnt = Inl e \<Longrightarrow> e \<noteq> KSUIDError MALFORMED_DATA"
  by (auto simp: next_time_delta_def Let_def split: sum.splits
      dest: readVarint_errs Buffer_errs KSUID_fromBytes_err uint128Payload_err)

lemma next_payload_delta_err:
  "next_payload_delta it cnt = Inl e \<Longrightarrow> e \<noteq> KSUIDError MALFORMED_DATA"
  by (auto simp: next_payload_delta_def Let_def split: sum.splits
      dest: readVarint_errs Uint128_ksuid_err KSUID_fromBytes_err)

lemma next_payload_range_err:
  "next_payload_range it cnt = Inl e \<Longrightarrow> e \<noteq> KSUIDError MALFORMED_DATA"
  by (auto simp: next_payload_range_def Let_def split: sum.splits
      dest: readVarint_errs Uint128_ksuid_err KSUID_fromBytes_err)

lemma next_not_malformed: "CompressedSetIter_next it \<noteq> Inl (KSUIDError MALFORMED_DATA)"
proof
  assume a: "CompressedSetIter_next it = Inl (KSUIDError MALFORMED_DATA)"
  define b where "b = uint (content it ! offset it)"
  have "js_bitand b 192 \<in> {0, 64, 128, 192}" by (rule tag_cases)
  with a show False
    by (auto simp: CompressedSetIter_next_def Let_def tags mask_val_num b_def split: if_splits
        dest: next_in_range_err next_raw_err next_time_delta_err next_payload_delta_err
          next_payload_range_err)
qed

text \<open>
  C4. The claim: \<open>next\<close> fails with \<^verbatim>\<open>malformedData\<close> exactly when the tag is not
  recognized or the buffer ends before a declared field is complete; nothing is decoded
  from a truncated record and no other error is raised. The code: the buffer
  \<open>[0x82, 5]\<close> announces a payload delta of 2 bytes and holds 1; \<open>next\<close> returns true with
  the identifier of payload 5 and no error, its offset past the end of the buffer. The
  buffer \<open>[0, 5]\<close> holds a Raw tag and 1 byte of the 20; \<open>next\<close> fails with the error of
  \<^verbatim>\<open>invalidBufferLength\<close>, not with \<^verbatim>\<open>malformedData\<close>. The only \<^verbatim>\<open>malformedData\<close> in
  \<open>next\<close> is the default case of the switch on the tag, which no byte reaches.
\<close>

theorem truncated_buffer_without_malformed_data:
  "CompressedSetIter_next (new_CompressedSetIter [0x82, 5])
     = Inr (True, \<lparr>ksuid = KSUID [0, 0, 0, 0, 0, 0, 0, 0, 0, 0, 0, 0, 0, 0, 0, 0, 0, 0, 0, 5],
                   content = [0x82, 5], offset = 3, seqlength = 0, timestamp = 0,
                   lastValue = \<lparr>low = 5, high = 0\<rparr>\<rparr>)
   \<and> CompressedSetIter_next (new_CompressedSetIter [0, 5])
     = Inl (KSUIDError INVALID_BUFFER_SIZE)"
  by code_simp

end
